theory Spec2Isabelle
  imports Main "HOL-Library.Signed_Division" "HOL-Library.AList"
begin

unbundle bit_operations_syntax

section \<open>Symbolic index expressions\<close>

text \<open>
  The layout code manipulates TVM index expressions (\<open>PrimExpr\<close>).  Only the integer
  fragment that \<open>layout.cc\<close> and \<open>loop_partition.cc\<close> build is embedded: literals,
  variables, sums, differences, products and the floor division and floor modulo nodes.
  A variable is identified by its name.  Index arithmetic is on mathematical integers
  (the 32-bit width of \<open>IntImm\<close> is not modelled).
\<close>

datatype PrimExpr =
    IntImm int
  | Var string
  | Add PrimExpr PrimExpr
  | Sub PrimExpr PrimExpr
  | Mul PrimExpr PrimExpr
  | FloorDiv PrimExpr PrimExpr
  | FloorMod PrimExpr PrimExpr

text \<open>
  The value of an expression under an assignment of its variables.  \<open>FloorDiv\<close> and
  \<open>FloorMod\<close> round towards minus infinity, as \<open>div\<close> and \<open>mod\<close> on \<open>int\<close> do.  For a
  zero divisor the value is the one of HOL (\<open>x div 0 = 0\<close>, \<open>x mod 0 = x\<close>); every
  division the code under study builds has a positive literal divisor.
\<close>

fun eval :: "(string \<Rightarrow> int) \<Rightarrow> PrimExpr \<Rightarrow> int" where
  "eval env (IntImm c) = c"
| "eval env (Var x) = env x"
| "eval env (Add a b) = eval env a + eval env b"
| "eval env (Sub a b) = eval env a - eval env b"
| "eval env (Mul a b) = eval env a * eval env b"
| "eval env (FloorDiv a b) = eval env a div eval env b"
| "eval env (FloorMod a b) = eval env a mod eval env b"

fun fv :: "PrimExpr \<Rightarrow> string set" where
  "fv (IntImm c) = {}"
| "fv (Var x) = {x}"
| "fv (Add a b) = fv a \<union> fv b"
| "fv (Sub a b) = fv a \<union> fv b"
| "fv (Mul a b) = fv a \<union> fv b"
| "fv (FloorDiv a b) = fv a \<union> fv b"
| "fv (FloorMod a b) = fv a \<union> fv b"

text \<open>
  \<open>operator+\<close>, \<open>operator-\<close> and \<open>operator*\<close> on \<open>PrimExpr\<close> fold constants before they
  build a node (TVM's \<open>TryConstFold\<close>): two literals are combined, and a neutral or
  absorbing literal operand is dropped.  The node constructors \<open>FloorDiv(a, b)\<close> and
  \<open>FloorMod(a, b)\<close> that the layout code calls do not fold.
\<close>

fun add :: "PrimExpr \<Rightarrow> PrimExpr \<Rightarrow> PrimExpr" where
  "add (IntImm a) (IntImm b) = IntImm (a + b)"
| "add (IntImm a) b = (if a = 0 then b else Add (IntImm a) b)"
| "add a (IntImm b) = (if b = 0 then a else Add a (IntImm b))"
| "add a b = Add a b"

fun sub :: "PrimExpr \<Rightarrow> PrimExpr \<Rightarrow> PrimExpr" where
  "sub (IntImm a) (IntImm b) = IntImm (a - b)"
| "sub a (IntImm b) = (if b = 0 then a else Sub a (IntImm b))"
| "sub a b = Sub a b"

fun mul :: "PrimExpr \<Rightarrow> PrimExpr \<Rightarrow> PrimExpr" where
  "mul (IntImm a) (IntImm b) = IntImm (a * b)"
| "mul (IntImm a) b = (if a = 1 then b else if a = 0 then IntImm a else Mul (IntImm a) b)"
| "mul a (IntImm b) = (if b = 1 then a else if b = 0 then IntImm b else Mul a (IntImm b))"
| "mul a b = Mul a b"

definition is_zero :: "PrimExpr \<Rightarrow> bool" where
  "is_zero e = (e = IntImm 0)"

definition is_one :: "PrimExpr \<Rightarrow> bool" where
  "is_one e = (e = IntImm 1)"

definition as_const_int :: "PrimExpr \<Rightarrow> int option" where
  "as_const_int e = (case e of IntImm c \<Rightarrow> Some c | _ \<Rightarrow> None)"

text \<open>
  \<open>Substitute(e, vmap)\<close> replaces, in one pass, every variable that \<open>vmap\<close> maps.
\<close>

fun Substitute :: "PrimExpr \<Rightarrow> (string \<rightharpoonup> PrimExpr) \<Rightarrow> PrimExpr" where
  "Substitute (IntImm c) vmap = IntImm c"
| "Substitute (Var x) vmap = (case vmap x of None \<Rightarrow> Var x | Some t \<Rightarrow> t)"
| "Substitute (Add a b) vmap = Add (Substitute a vmap) (Substitute b vmap)"
| "Substitute (Sub a b) vmap = Sub (Substitute a vmap) (Substitute b vmap)"
| "Substitute (Mul a b) vmap = Mul (Substitute a vmap) (Substitute b vmap)"
| "Substitute (FloorDiv a b) vmap = FloorDiv (Substitute a vmap) (Substitute b vmap)"
| "Substitute (FloorMod a b) vmap = FloorMod (Substitute a vmap) (Substitute b vmap)"

section \<open>The XOR swizzle functions\<close>

definition xor2x2 :: "PrimExpr \<Rightarrow> PrimExpr \<Rightarrow> PrimExpr" where
  "xor2x2 i j = FloorMod (add i j) (IntImm 2)"

definition xor4x4 :: "PrimExpr \<Rightarrow> PrimExpr \<Rightarrow> PrimExpr" where
  "xor4x4 i j =
     (let i0 = FloorMod i (IntImm 2);
          j0 = FloorMod j (IntImm 2);
          i1 = FloorDiv i (IntImm 2);
          j1 = FloorDiv j (IntImm 2)
      in add (mul (IntImm 2) (xor2x2 i1 j1)) (xor2x2 i0 j0))"

definition xor8x8 :: "PrimExpr \<Rightarrow> PrimExpr \<Rightarrow> PrimExpr" where
  "xor8x8 i j =
     (let i0 = FloorMod i (IntImm 2);
          j0 = FloorMod j (IntImm 2);
          i1 = FloorDiv i (IntImm 2);
          j1 = FloorDiv j (IntImm 2)
      in add (mul (IntImm 2) (xor4x4 i1 j1)) (xor2x2 i0 j0))"

section \<open>Ranges and iteration variables\<close>

datatype error = CheckFailed string | UndefinedBehaviour string

record Range =
  min_r :: PrimExpr
  extent :: PrimExpr

text \<open>
  \<open>Range(begin, end)\<close> stores the minimum and the extent \<open>end - begin\<close>; the
  subtraction is skipped when \<open>begin\<close> is the literal zero.
  \<open>Range::FromMinExtent\<close> stores its two arguments.
\<close>

definition Range_begin_end :: "PrimExpr \<Rightarrow> PrimExpr \<Rightarrow> Range" where
  "Range_begin_end b e = \<lparr>min_r = b, extent = (if is_zero b then e else sub e b)\<rparr>"

definition FromMinExtent :: "PrimExpr \<Rightarrow> PrimExpr \<Rightarrow> Range" where
  "FromMinExtent m e = \<lparr>min_r = m, extent = e\<rparr>"

datatype IterVarType = kDataPar | kThreadIndex | kCommReduce

record IterVar =
  dom_iv :: Range
  var :: string
  iter_type :: IterVarType

definition make_itervar :: "string \<Rightarrow> PrimExpr \<Rightarrow> IterVar" where
  "make_itervar name d =
     \<lparr>dom_iv = Range_begin_end (IntImm 0) d, var = name, iter_type = kDataPar\<rparr>"

section \<open>The expression engine\<close>

text \<open>
  The simplifier, the bound analyser and the affine iteration map detector are TVM's
  \<open>arith\<close> library, which the layout code calls and does not define.  They are parameters
  of the model: every operation below takes the engine as its first argument.  An
  analyser that has been told the domains of some variables (\<open>analyzer->Bind\<close>) is the
  list of these bindings, in the order they were made.
\<close>

type_synonym bindings = "(string \<times> Range) list"

record IterSplitExpr =
  source :: PrimExpr
  lower_factor :: PrimExpr
  split_extent :: PrimExpr
  scale :: PrimExpr

record 'm Engine =
  Simplify :: "bindings \<Rightarrow> PrimExpr \<Rightarrow> PrimExpr"
  int_set :: "bindings \<Rightarrow> PrimExpr \<Rightarrow> PrimExpr \<times> PrimExpr"
  DetectIterMap :: "PrimExpr list \<Rightarrow> bindings \<Rightarrow> string list \<times> 'm"
  InverseAffineIterMap :: "'m \<Rightarrow> PrimExpr list \<Rightarrow> (string \<rightharpoonup> PrimExpr)"
  DivideUnusedIterators :: "PrimExpr list \<Rightarrow> IterVar list \<Rightarrow> bindings \<Rightarrow> IterSplitExpr list"
  MakeFlattenedExpression :: "IterSplitExpr list \<Rightarrow> PrimExpr"

text \<open>
  \<open>int_set\<close> returns the pair (minimum, maximum) of the interval it infers;
  \<open>DetectIterMap\<close> returns the list of obstruction errors and the detected map.
\<close>

section \<open>Layout\<close>

record LayoutNode =
  forward_var :: "IterVar list"
  forward_index :: "PrimExpr list"

text \<open>
  \<open>InputDim\<close> and \<open>OutputDim\<close> are declared in \<open>layout.h\<close>.
  Modelled from the spec: they are the arities of the input variables and of the
  output expressions.
\<close>

definition InputDim :: "'a LayoutNode_scheme \<Rightarrow> nat" where
  "InputDim n = length (forward_var n)"

definition OutputDim :: "'a LayoutNode_scheme \<Rightarrow> nat" where
  "OutputDim n = length (forward_index n)"

definition UpdateAnalyzer :: "'a LayoutNode_scheme \<Rightarrow> bindings" where
  "UpdateAnalyzer n = map (\<lambda>iv. (var iv, dom_iv iv)) (forward_var n)"

definition Layout :: "'m Engine \<Rightarrow> IterVar list \<Rightarrow> PrimExpr list \<Rightarrow> LayoutNode" where
  "Layout an fvar findex =
     (let n = \<lparr>forward_var = fvar, forward_index = []\<rparr>;
          analyzer = UpdateAnalyzer n
      in n\<lparr>forward_index := map (Simplify an analyzer) findex\<rparr>)"

definition InputShape :: "'a LayoutNode_scheme \<Rightarrow> PrimExpr list" where
  "InputShape n = map (\<lambda>iv. extent (dom_iv iv)) (forward_var n)"

text \<open>
  The loop of \<open>OutputShape\<close>, for an analyser with the bindings \<open>analyzer\<close>: the first
  output whose inferred minimum of \<open>expr + 1\<close> is not the literal one fails the \<open>CHECK\<close>.
\<close>

fun OutputShape_loop :: "'m Engine \<Rightarrow> bindings \<Rightarrow> PrimExpr list \<Rightarrow> error + PrimExpr list" where
  "OutputShape_loop an analyzer [] = Inr []"
| "OutputShape_loop an analyzer (e # es) =
     (let ist = int_set an analyzer (add e (IntImm 1))
      in if \<not> is_one (fst ist) then Inl (CheckFailed ''is_one(ist.min())'')
         else (case OutputShape_loop an analyzer es of
                 Inl err \<Rightarrow> Inl err
               | Inr ret \<Rightarrow> Inr (snd ist # ret)))"

definition OutputShape :: "'m Engine \<Rightarrow> LayoutNode \<Rightarrow> error + PrimExpr list" where
  "OutputShape an n = OutputShape_loop an (UpdateAnalyzer n) (forward_index n)"

definition Forward :: "LayoutNode \<Rightarrow> PrimExpr list \<Rightarrow> error + PrimExpr list" where
  "Forward n vars =
     (if vars = [] then Inr (forward_index n)
      else if length vars \<noteq> InputDim n then Inl (CheckFailed ''vars.size() == InputDim()'')
      else let vmap = fold (\<lambda>(iv, v) m. m(var iv \<mapsto> v)) (zip (forward_var n) vars) Map.empty
           in Inr (map (\<lambda>e. Substitute e vmap) (forward_index n)))"

text \<open>\<open>std::to_string\<close> on an index: its decimal digits.\<close>

definition digit_char :: "nat \<Rightarrow> char" where
  "digit_char d = ''0123456789'' ! d"

function to_string :: "nat \<Rightarrow> string" where
  "to_string n = (if n < 10 then [digit_char n] else to_string (n div 10) @ [digit_char (n mod 10)])"
  by pat_completeness auto
termination
  by (relation "measure id") auto

declare to_string.simps [simp del]

definition Inverse :: "'m Engine \<Rightarrow> LayoutNode \<Rightarrow> error + LayoutNode" where
  "Inverse an n =
     (let input_iters = fold (\<lambda>iv m. AList.update (var iv) (dom_iv iv) m) (forward_var n) [];
          res = DetectIterMap an (forward_index n) input_iters
      in if fst res \<noteq> [] then Inl (CheckFailed (concat (fst res)))
         else (case OutputShape an n of
                 Inl err \<Rightarrow> Inl err
               | Inr outputs_shape \<Rightarrow>
                   let inverse_iter_var =
                         map (\<lambda>i. make_itervar (''v'' @ to_string i) (outputs_shape ! i))
                           [0..<OutputDim n];
                       outputs = map (\<lambda>iv. Var (var iv)) inverse_iter_var;
                       inv = InverseAffineIterMap an (snd res) outputs;
                       backward_index =
                         map (\<lambda>iv. case inv (var iv) of Some e \<Rightarrow> e | None \<Rightarrow> IntImm 0)
                           (forward_var n)
                   in Inr (Layout an inverse_iter_var backward_index)))"

section \<open>Fragment\<close>

record FragmentNode = LayoutNode +
  forward_thread :: PrimExpr
  thread_replicate :: IterVar

text \<open>
  \<open>FragmentNode::UpdateAnalyzer\<close> overrides the method of \<open>LayoutNode\<close>: it binds the
  replication variable after the input variables.  The methods a Fragment inherits
  (\<open>OutputShape\<close>) run with this override.
\<close>

definition FragmentNode_UpdateAnalyzer :: "FragmentNode \<Rightarrow> bindings" where
  "FragmentNode_UpdateAnalyzer n =
     UpdateAnalyzer n @ [(var (thread_replicate n), dom_iv (thread_replicate n))]"

definition FragmentNode_OutputShape :: "'m Engine \<Rightarrow> FragmentNode \<Rightarrow> error + PrimExpr list" where
  "FragmentNode_OutputShape an n =
     OutputShape_loop an (FragmentNode_UpdateAnalyzer n) (forward_index n)"


fun split_without_rep_loop :: "IterVar \<Rightarrow> IterSplitExpr list \<Rightarrow> error + IterSplitExpr list" where
  "split_without_rep_loop rep [] = Inr []"
| "split_without_rep_loop rep (split # splits) =
     (case source split of
        Var x \<Rightarrow>
          (case split_without_rep_loop rep splits of
             Inl err \<Rightarrow> Inl err
           | Inr rest \<Rightarrow> Inr (if x = var rep then rest else split # rest))
      | _ \<Rightarrow> Inl (CheckFailed ''split->source->source.as<Var>()''))"

definition infer_fragment_index ::
  "'m Engine \<Rightarrow> IterVar list \<Rightarrow> IterVar \<Rightarrow> PrimExpr \<Rightarrow> bindings \<Rightarrow> error + PrimExpr" where
  "infer_fragment_index an fvar rep fthread analyzer =
     (let input_iters = fvar @ [rep];
          splits = DivideUnusedIterators an [fthread] input_iters analyzer
      in case split_without_rep_loop rep splits of
           Inl err \<Rightarrow> Inl err
         | Inr split_without_rep \<Rightarrow> Inr (MakeFlattenedExpression an split_without_rep))"

text \<open>
  The constructor of \<open>Fragment\<close>.  An undefined replication variable (\<open>None\<close>) becomes
  a dummy of extent one; an empty index list is inferred from the thread expression.
\<close>

definition Fragment ::
  "'m Engine \<Rightarrow> IterVar list \<Rightarrow> PrimExpr list \<Rightarrow> PrimExpr \<Rightarrow> IterVar option \<Rightarrow> error + FragmentNode"
where
  "Fragment an fvar findex fthread rep_opt =
     (let rep = (case rep_opt of None \<Rightarrow> make_itervar ''unused'' (IntImm 1) | Some r \<Rightarrow> r)
      in if \<not> is_zero (min_r (dom_iv rep))
         then Inl (CheckFailed ''is_zero(thread_replicate->dom->min)'')
         else
           let n = \<lparr>forward_var = fvar, forward_index = [], forward_thread = fthread,
                    thread_replicate = rep\<rparr>;
               analyzer = FragmentNode_UpdateAnalyzer n;
               fthread' = Simplify an analyzer fthread;
               inferred =
                 (if findex = []
                  then (case infer_fragment_index an fvar rep fthread' analyzer of
                          Inl err \<Rightarrow> Inl err
                        | Inr e \<Rightarrow> Inr [e])
                  else Inr findex)
           in case inferred of
                Inl err \<Rightarrow> Inl err
              | Inr findex' \<Rightarrow>
                  Inr (n\<lparr>forward_index := map (Simplify an analyzer) findex',
                          forward_thread := fthread'\<rparr>))"

definition ThreadExtent :: "'m Engine \<Rightarrow> FragmentNode \<Rightarrow> error + PrimExpr" where
  "ThreadExtent an n =
     (let ist = int_set an (FragmentNode_UpdateAnalyzer n) (add (forward_thread n) (IntImm 1))
      in if \<not> is_one (fst ist) then Inl (CheckFailed ''is_one(ist.min())'')
         else Inr (snd ist))"

text \<open>
  \<open>Repeat\<close>.  Its first loop builds the enlarged input variables
  (\<open>Repeat_new_forward_var\<close>) and the substitution of each variable by its remainder
  modulo the old extent (\<open>Repeat_vmap\<close>).  The two loops that build the mixed-radix
  repeat index run over the dimensions in opposite orders; \<open>repeats_index_loop\<close> is the
  loop body folded over the triples (new variable, old extent, count) in the order the
  loop visits them.
\<close>

fun repeats_index_loop ::
  "(PrimExpr \<times> PrimExpr \<times> PrimExpr) list \<Rightarrow> PrimExpr \<times> PrimExpr \<Rightarrow> PrimExpr \<times> PrimExpr" where
  "repeats_index_loop [] acc = acc"
| "repeats_index_loop ((v, shape, r) # rest) (repeats_index, repeat_stride) =
     repeats_index_loop rest
       (add repeats_index (mul repeat_stride (FloorDiv v shape)), mul repeat_stride r)"

definition Repeat_new_forward_var :: "IterVar list \<Rightarrow> PrimExpr list \<Rightarrow> IterVar list" where
  "Repeat_new_forward_var fvar repeats =
     map (\<lambda>(v, r). \<lparr>dom_iv = Range_begin_end (min_r (dom_iv v)) (mul (extent (dom_iv v)) r),
                      var = var v, iter_type = iter_type v\<rparr>)
       (zip fvar repeats)"

definition Repeat_vmap :: "IterVar list \<Rightarrow> PrimExpr list \<Rightarrow> (string \<rightharpoonup> PrimExpr)" where
  "Repeat_vmap fvar shape =
     fold (\<lambda>(v, s) m. m(var v \<mapsto> FloorMod (Var (var v)) s)) (zip fvar shape) Map.empty"

definition Repeat_repeats_index ::
  "IterVar list \<Rightarrow> PrimExpr list \<Rightarrow> PrimExpr list \<Rightarrow> bool \<Rightarrow> PrimExpr" where
  "Repeat_repeats_index new_forward_var shape repeats lower_dim_first =
     (let dims = zip (map (\<lambda>v. Var (var v)) new_forward_var) (zip shape repeats)
      in fst (repeats_index_loop (if lower_dim_first then rev dims else dims)
                (IntImm 0, IntImm 1)))"

definition Repeat ::
  "'m Engine \<Rightarrow> FragmentNode \<Rightarrow> PrimExpr list \<Rightarrow> bool \<Rightarrow> bool \<Rightarrow> error + FragmentNode" where
  "Repeat an n repeats repeat_on_thread lower_dim_first =
     (if length repeats \<noteq> InputDim n then Inl (CheckFailed ''repeats.size() == InputDim()'')
      else
        let new_forward_var = Repeat_new_forward_var (forward_var n) repeats;
            vmap = Repeat_vmap (forward_var n) (InputShape n);
            repeats_index =
              Repeat_repeats_index new_forward_var (InputShape n) repeats lower_dim_first
        in if repeat_on_thread then
             (case ThreadExtent an n of
                Inl err \<Rightarrow> Inl err
              | Inr thread_size \<Rightarrow>
                  let new_forward_index = map (\<lambda>e. Substitute e vmap) (forward_index n);
                      new_forward_thread =
                        add (Substitute (forward_thread n) vmap) (mul thread_size repeats_index)
                  in Fragment an new_forward_var new_forward_index new_forward_thread
                       (Some (thread_replicate n)))
           else if OutputDim n \<noteq> 1 then Inl (CheckFailed ''OutputDim() == 1'')
           else
             (case FragmentNode_OutputShape an n of
                Inl err \<Rightarrow> Inl err
              | Inr shape \<Rightarrow>
                  let frag_len = shape ! 0;
                      new_forward_index =
                        [add (Substitute (forward_index n ! 0) vmap) (mul frag_len repeats_index)];
                      new_forward_thread = Substitute (forward_thread n) vmap
                  in Fragment an new_forward_var new_forward_index new_forward_thread
                       (Some (thread_replicate n))))"



section \<open>Register tile factories\<close>

definition makeGemmFragment8x8 :: "'m Engine \<Rightarrow> error + FragmentNode" where
  "makeGemmFragment8x8 an =
     (let i = make_itervar ''i'' (IntImm 8);
          j = make_itervar ''j'' (IntImm 8);
          rep = make_itervar ''rep'' (IntImm 1);
          fthread = add (FloorDiv (Var (var j)) (IntImm 2)) (mul (IntImm 4) (Var (var i)));
          index = FloorMod (Var (var j)) (IntImm 2)
      in Fragment an [i, j] [index] fthread (Some rep))"

text \<open>
  The shape parameters are C++ \<open>int\<close>s: \<open>%\<close> and \<open>/\<close> truncate (\<open>smod\<close>, \<open>sdiv\<close>) and
  are undefined for a zero divisor.
\<close>

definition makeGemmFragmentC_F64 ::
  "'m Engine \<Rightarrow> int \<Rightarrow> int \<Rightarrow> int \<Rightarrow> int \<Rightarrow> error + FragmentNode" where
  "makeGemmFragmentC_F64 an block_m block_n warp_m warp_n =
     (if warp_m = 0 then Inl (UndefinedBehaviour ''block_m % warp_m'')
      else if block_m smod warp_m \<noteq> 0 then Inl (CheckFailed ''block_m % warp_m == 0'')
      else if warp_n = 0 then Inl (UndefinedBehaviour ''block_n % warp_n'')
      else if block_n smod warp_n \<noteq> 0 then Inl (CheckFailed ''block_n % warp_n == 0'')
      else if warp_m smod 16 \<noteq> 0 then Inl (CheckFailed ''warp_m % 16 == 0'')
      else if warp_n smod 16 \<noteq> 0 then Inl (CheckFailed ''warp_n % 16 == 0'')
      else
        case makeGemmFragment8x8 an of
          Inl err \<Rightarrow> Inl err
        | Inr base_layout \<Rightarrow>
            (case Repeat an base_layout
                    [IntImm (block_m sdiv warp_m), IntImm (block_n sdiv warp_n)] True False of
               Inl err \<Rightarrow> Inl err
             | Inr warp_layout \<Rightarrow>
                 Repeat an warp_layout [IntImm (warp_m sdiv 8), IntImm (warp_n sdiv 8)]
                   False False))"

text \<open>
  \<open>makeGemmFragmentC\<close> calls \<open>Repeat({2, 1}, false)\<close> without its third argument, whose
  default is declared in \<open>layout.h\<close>; the default is the parameter
  \<open>lower_dim_first_default\<close> here.
\<close>

definition makeGemmFragmentC ::
  "'m Engine \<Rightarrow> bool \<Rightarrow> int \<Rightarrow> int \<Rightarrow> int \<Rightarrow> int \<Rightarrow> int \<Rightarrow> error + FragmentNode" where
  "makeGemmFragmentC an lower_dim_first_default block_m block_n warp_m warp_n element_size =
     (if element_size = 64 then makeGemmFragmentC_F64 an block_m block_n warp_m warp_n
      else if warp_m = 0 then Inl (UndefinedBehaviour ''block_m % warp_m'')
      else if block_m smod warp_m \<noteq> 0 then Inl (CheckFailed ''block_m % warp_m == 0'')
      else if warp_n = 0 then Inl (UndefinedBehaviour ''block_n % warp_n'')
      else if block_n smod warp_n \<noteq> 0 then Inl (CheckFailed ''block_n % warp_n == 0'')
      else if warp_m smod 16 \<noteq> 0 then Inl (CheckFailed ''warp_m % 16 == 0'')
      else if warp_n smod 16 \<noteq> 0 then Inl (CheckFailed ''warp_n % 16 == 0'')
      else
        case makeGemmFragment8x8 an of
          Inl err \<Rightarrow> Inl err
        | Inr atom \<Rightarrow>
            (case Repeat an atom [IntImm 2, IntImm 1] False lower_dim_first_default of
               Inl err \<Rightarrow> Inl err
             | Inr base_layout \<Rightarrow>
                 (case Repeat an base_layout
                         [IntImm (block_m sdiv warp_m), IntImm (block_n sdiv warp_n)] True False of
                    Inl err \<Rightarrow> Inl err
                  | Inr warp_layout \<Rightarrow>
                      Repeat an warp_layout [IntImm (warp_m sdiv 16), IntImm (warp_n sdiv 8)]
                        False False)))"

section \<open>LoopPartitioner\<close>

text \<open>
  Modelled from the spec: the loop-nest AST, where each loop carries a kind, a loop
  variable, a minimum and an extent.  The statement kinds other than \<open>For\<close> stand for
  the statements a loop body is made of.
\<close>

datatype ForKind = kSerial | kParallel | kUnrolled

datatype Stmt =
    For string PrimExpr PrimExpr ForKind Stmt
  | SeqStmt "Stmt list"
  | IfThenElse PrimExpr Stmt Stmt
  | LetStmt string PrimExpr Stmt
  | BufferStore string PrimExpr "PrimExpr list"
  | Evaluate PrimExpr

record LoopPartitioner =
  body :: "Stmt option"
  loop_vars :: "IterVar list"

definition LoopPartitioner_default :: LoopPartitioner where
  "LoopPartitioner_default = \<lparr>body = None, loop_vars = []\<rparr>"

text \<open>
  The visitor.  \<open>LoopPartitioner\<close> overrides \<open>VisitStmt_\<close> for \<open>ForNode\<close> only: a
  parallel loop is recorded, and then, whatever the loop's kind, the base class visitor
  \<open>StmtExprVisitor::VisitStmt_\<close> is called, which visits the children of the node (for
  a loop, its body).  Every other statement is visited by the base class, which visits
  its children in order.  Expressions contain no statement.
\<close>

fun VisitStmt :: "Stmt \<Rightarrow> LoopPartitioner \<Rightarrow> LoopPartitioner" where
  "VisitStmt (For loop_var mn ext kind b) p =
     VisitStmt b
       (if kind = kParallel
        then p\<lparr>body := Some b,
               loop_vars := loop_vars p @
                 [\<lparr>dom_iv = FromMinExtent mn ext, var = loop_var, iter_type = kDataPar\<rparr>]\<rparr>
        else p)"
| "VisitStmt (SeqStmt ss) p = fold VisitStmt ss p"
| "VisitStmt (IfThenElse c t e) p = VisitStmt e (VisitStmt t p)"
| "VisitStmt (LetStmt x v b) p = VisitStmt b p"
| "VisitStmt (BufferStore buf v idx) p = p"
| "VisitStmt (Evaluate v) p = p"

text \<open>
  \<open>int extent = *ext_ptr\<close> narrows a 64-bit constant to \<open>int\<close>;
  \<open>loop_size_full *= extent\<close> is undefined when the product leaves the range of \<open>int\<close>.
\<close>

definition int32_of :: "int \<Rightarrow> int" where
  "int32_of x = (x + 2147483648) mod 4294967296 - 2147483648"

definition in_int32 :: "int \<Rightarrow> bool" where
  "in_int32 x = (- 2147483648 \<le> x \<and> x < 2147483648)"

fun Partition_loop :: "IterVar list \<Rightarrow> int \<times> PrimExpr \<Rightarrow> error + int \<times> PrimExpr" where
  "Partition_loop [] acc = Inr acc"
| "Partition_loop (iv # ivs) (loop_size_full, flattened) =
     (case as_const_int (extent (dom_iv iv)) of
        None \<Rightarrow> Inl (CheckFailed ''ext_ptr'')
      | Some ext_val \<Rightarrow>
          let ext = int32_of ext_val
          in if \<not> in_int32 (loop_size_full * ext)
             then Inl (UndefinedBehaviour ''loop_size_full *= extent'')
             else Partition_loop ivs
                    (loop_size_full * ext, add (mul flattened (IntImm ext)) (Var (var iv))))"

text \<open>
  The guard of the case that is not implemented is \<open>ICHECK("Not Implemented case.")\<close>:
  its condition is a string literal, a pointer that is not null, which converts to
  \<open>true\<close>.
\<close>

definition string_literal_as_bool :: "string \<Rightarrow> bool" where
  "string_literal_as_bool s = True"

definition Partition ::
  "'m Engine \<Rightarrow> LoopPartitioner \<Rightarrow> Stmt \<Rightarrow> int \<Rightarrow> error + FragmentNode" where
  "Partition an p op num_thread =
     (let p' = VisitStmt op p
      in case Partition_loop (loop_vars p') (1, IntImm 0) of
           Inl err \<Rightarrow> Inl err
         | Inr (loop_size_full, flattened) \<Rightarrow>
             if num_thread = 0 \<or> (loop_size_full = - 2147483648 \<and> num_thread = - 1)
             then Inl (UndefinedBehaviour ''loop_size_full % num_thread'')
             else if loop_size_full smod num_thread \<noteq> 0
                     \<and> \<not> string_literal_as_bool ''Not Implemented case.''
             then Inl (CheckFailed ''Not Implemented case.'')
             else Fragment an (loop_vars p') [FloorDiv flattened (IntImm num_thread)]
                    (FloorMod flattened (IntImm num_thread)) None)"

section \<open>What the spec asks of the expression engine\<close>

text \<open>
  An assignment is in the domain of a list of bindings when every bound variable lies
  in its range \<open>[min, min + extent)\<close>.
\<close>

definition in_dom :: "bindings \<Rightarrow> (string \<Rightarrow> int) \<Rightarrow> bool" where
  "in_dom bnds env =
     list_all (\<lambda>(x, r). eval env (min_r r) \<le> env x \<and> env x < eval env (min_r r) + eval env (extent r))
       bnds"

text \<open>
  Bindings are constant when the bound variables are distinct and every range has a
  literal minimum and a positive literal extent.
\<close>

definition const_range :: "Range \<Rightarrow> bool" where
  "const_range r = (case (min_r r, extent r) of (IntImm lo, IntImm ext) \<Rightarrow> 0 < ext | _ \<Rightarrow> False)"

definition const_bindings :: "bindings \<Rightarrow> bool" where
  "const_bindings bnds = (distinct (map fst bnds) \<and> list_all (\<lambda>(x, r). const_range r) bnds)"

text \<open>
  \<open>lo\<close> and \<open>hi\<close> are the exact bounds of an expression over a domain: no value leaves
  \<open>[lo, hi]\<close>, and both ends are taken.
\<close>

definition bounds_of :: "bindings \<Rightarrow> PrimExpr \<Rightarrow> int \<Rightarrow> int \<Rightarrow> bool" where
  "bounds_of bnds e lo hi =
     ((\<forall>env. in_dom bnds env \<longrightarrow> lo \<le> eval env e \<and> eval env e \<le> hi) \<and>
      (\<exists>env. in_dom bnds env \<and> eval env e = lo) \<and>
      (\<exists>env. in_dom bnds env \<and> eval env e = hi))"

text \<open>
  Modelled from the spec: the engine can "simplify an expression under current
  bindings".  A simplifier keeps the value of the expression on the bound domain,
  introduces no variable, and leaves a literal as it is.
\<close>

definition sound_simplify :: "'m Engine \<Rightarrow> bool" where
  "sound_simplify an =
     (\<forall>bnds e.
        fv (Simplify an bnds e) \<subseteq> fv e \<and>
        (\<forall>env. in_dom bnds env \<longrightarrow> eval env (Simplify an bnds e) = eval env e) \<and>
        (\<forall>c. Simplify an bnds (IntImm c) = IntImm c))"

text \<open>
  Modelled from the spec: the engine can "compute tight integer bounds (min, max) of an
  expression".  For constant bindings and an expression over the bound variables, the
  inferred interval is the pair of literals of the exact bounds.
\<close>

definition tight_bounds :: "'m Engine \<Rightarrow> bool" where
  "tight_bounds an =
     (\<forall>bnds e. const_bindings bnds \<longrightarrow> fv e \<subseteq> fst ` set bnds \<longrightarrow>
        (\<exists>lo hi. int_set an bnds e = (IntImm lo, IntImm hi) \<and> bounds_of bnds e lo hi))"

definition engine_ok :: "'m Engine \<Rightarrow> bool" where
  "engine_ok an = (sound_simplify an \<and> tight_bounds an)"

subsection \<open>A small engine\<close>

text \<open>
  An instance of the engine, with which the theorems below are applied to concrete
  layouts: it does not rewrite, finds the bounds of an expression over constant bindings
  by enumerating the domain, and detects the maps that send the input variables to
  distinct output coordinates (inputs of extent one may be dropped).  Its iterator
  division finds no split; it is used only with Fragments that are given their index.
\<close>

fun assignments :: "bindings \<Rightarrow> (string \<Rightarrow> int) list" where
  "assignments [] = [\<lambda>_. 0]"
| "assignments ((x, r) # bs) =
     (case (min_r r, extent r) of
        (IntImm lo, IntImm ext) \<Rightarrow>
          concat (map (\<lambda>v. map (\<lambda>env. env(x := v)) (assignments bs)) [lo..lo + ext - 1])
      | _ \<Rightarrow> [])"

definition enum_int_set :: "bindings \<Rightarrow> PrimExpr \<Rightarrow> PrimExpr \<times> PrimExpr" where
  "enum_int_set bnds e =
     (case map (\<lambda>env. eval env e) (assignments bnds) of
        [] \<Rightarrow> (Var ''neg_inf'', Var ''pos_inf'')
      | v # vs \<Rightarrow> (IntImm (fold min vs v), IntImm (fold max vs v)))"

definition perm_DetectIterMap :: "PrimExpr list \<Rightarrow> bindings \<Rightarrow> string list \<times> PrimExpr list" where
  "perm_DetectIterMap indices input_iters =
     (if list_all (\<lambda>e. case e of Var x \<Rightarrow> x \<in> fst ` set input_iters | _ \<Rightarrow> False) indices
         \<and> distinct indices
         \<and> list_all (\<lambda>(x, r). Var x \<in> set indices \<or> extent r = IntImm 1) input_iters
      then ([], indices)
      else ([''the indices are not distinct input iterators''], []))"

definition perm_InverseAffineIterMap :: "PrimExpr list \<Rightarrow> PrimExpr list \<Rightarrow> (string \<rightharpoonup> PrimExpr)" where
  "perm_InverseAffineIterMap indices outputs =
     map_of (concat (map (\<lambda>(e, out). case e of Var x \<Rightarrow> [(x, out)] | _ \<Rightarrow> [])
                       (zip indices outputs)))"

definition small_engine :: "(PrimExpr list) Engine" where
  "small_engine =
     \<lparr>Simplify = (\<lambda>bnds e. e),
      int_set = enum_int_set,
      DetectIterMap = perm_DetectIterMap,
      InverseAffineIterMap = perm_InverseAffineIterMap,
      DivideUnusedIterators = (\<lambda>es iters bnds. []),
      MakeFlattenedExpression = (\<lambda>splits. IntImm 0)\<rparr>"

section \<open>Notions used in the statements\<close>

text \<open>
  A Fragment is well formed when its input variables and its replication variable are
  distinct and have constant ranges (positive literal extents), the replication range
  starts at zero (the constructor checks this), the thread expression is over these
  variables, and there is at least one index expression, each over the input
  variables.  The factories and \<open>Partition\<close> build such Fragments.
\<close>

definition wf_fragment :: "FragmentNode \<Rightarrow> bool" where
  "wf_fragment n =
     (list_all (\<lambda>iv. const_range (dom_iv iv)) (forward_var n) \<and>
      const_range (dom_iv (thread_replicate n)) \<and>
      min_r (dom_iv (thread_replicate n)) = IntImm 0 \<and>
      distinct (map var (forward_var n) @ [var (thread_replicate n)]) \<and>
      fv (forward_thread n) \<subseteq> set (map var (forward_var n)) \<union> {var (thread_replicate n)} \<and>
      forward_index n \<noteq> [] \<and>
      list_all (\<lambda>e. fv e \<subseteq> set (map var (forward_var n))) (forward_index n))"

text \<open>The input domains start at zero, as those that \<open>make_itervar\<close> builds.\<close>

definition zero_based :: "FragmentNode \<Rightarrow> bool" where
  "zero_based n = list_all (\<lambda>iv. min_r (dom_iv iv) = IntImm 0) (forward_var n)"

text \<open>
  The value of a mixed-radix numeral, least significant digit first: the digits are
  paired with their radices.
\<close>

fun mixed_radix :: "(int \<times> int) list \<Rightarrow> int" where
  "mixed_radix [] = 0"
| "mixed_radix ((q, c) # rest) = q + c * mixed_radix rest"


text \<open>
  The outermost contiguous chain of parallel loops of a statement, as the spec words
  the collection of \<open>Partition\<close>: it ends at the first statement that is not a parallel
  loop.
\<close>

definition loop_itervar :: "string \<Rightarrow> PrimExpr \<Rightarrow> PrimExpr \<Rightarrow> IterVar" where
  "loop_itervar loop_var mn ext =
     \<lparr>dom_iv = FromMinExtent mn ext, var = loop_var, iter_type = kDataPar\<rparr>"

fun parallel_chain :: "Stmt \<Rightarrow> IterVar list" where
  "parallel_chain (For loop_var mn ext kind b) =
     (if kind = kParallel then loop_itervar loop_var mn ext # parallel_chain b else [])"
| "parallel_chain (SeqStmt ss) = []"
| "parallel_chain (IfThenElse c t e) = []"
| "parallel_chain (LetStmt x v b) = []"
| "parallel_chain (BufferStore buf v idx) = []"
| "parallel_chain (Evaluate v) = []"

text \<open>All the statements of a tree, each before the statements below it.\<close>

fun substmts :: "Stmt \<Rightarrow> Stmt list" where
  "substmts (For loop_var mn ext kind b) = For loop_var mn ext kind b # substmts b"
| "substmts (SeqStmt ss) = SeqStmt ss # concat (map substmts ss)"
| "substmts (IfThenElse c t e) = IfThenElse c t e # substmts t @ substmts e"
| "substmts (LetStmt x v b) = LetStmt x v b # substmts b"
| "substmts (BufferStore buf v idx) = [BufferStore buf v idx]"
| "substmts (Evaluate v) = [Evaluate v]"

fun parallel_loop_var :: "Stmt \<Rightarrow> IterVar option" where
  "parallel_loop_var (For loop_var mn ext kind b) =
     (if kind = kParallel then Some (loop_itervar loop_var mn ext) else None)"
| "parallel_loop_var (SeqStmt ss) = None"
| "parallel_loop_var (IfThenElse c t e) = None"
| "parallel_loop_var (LetStmt x v b) = None"
| "parallel_loop_var (BufferStore buf v idx) = None"
| "parallel_loop_var (Evaluate v) = None"

section \<open>Auxiliary notions of the proofs\<close>

text \<open>The bindings that \<open>FragmentNode::UpdateAnalyzer\<close> makes, from the variables.\<close>

definition frag_bindings :: "IterVar list \<Rightarrow> IterVar \<Rightarrow> bindings" where
  "frag_bindings fvar rep = map (\<lambda>iv. (var iv, dom_iv iv)) fvar @ [(var rep, dom_iv rep)]"

definition extent_of :: "IterVar \<Rightarrow> int" where
  "extent_of iv = (case extent (dom_iv iv) of IntImm e \<Rightarrow> e | _ \<Rightarrow> 0)"

definition min_of :: "IterVar \<Rightarrow> int" where
  "min_of iv = (case min_r (dom_iv iv) of IntImm m \<Rightarrow> m | _ \<Rightarrow> 0)"

text \<open>An input variable over \<open>[0, e)\<close> with a positive literal \<open>e\<close>.\<close>

definition zero_var :: "IterVar \<Rightarrow> bool" where
  "zero_var iv = (dom_iv iv = \<lparr>min_r = IntImm 0, extent = IntImm (extent_of iv)\<rparr> \<and> 0 < extent_of iv)"

text \<open>The variables of \<open>Repeat\<close> after the enlargement by literal counts.\<close>

definition scaled :: "IterVar list \<Rightarrow> int list \<Rightarrow> IterVar list" where
  "scaled fvar cs =
     map (\<lambda>(v, c). \<lparr>dom_iv = \<lparr>min_r = IntImm 0, extent = IntImm (extent_of v * c)\<rparr>,
                      var = var v, iter_type = iter_type v\<rparr>)
       (zip fvar cs)"

text \<open>
  An assignment of the enlarged domain read in the old domain (each coordinate modulo
  its old extent), and an assignment of the old domain moved to the last repetition.
\<close>

definition wrap_env :: "IterVar list \<Rightarrow> (string \<Rightarrow> int) \<Rightarrow> string \<Rightarrow> int" where
  "wrap_env fvar env x =
     (case map_of (map (\<lambda>v. (var v, extent_of v)) fvar) x of
        Some e \<Rightarrow> env x mod e
      | None \<Rightarrow> env x)"

definition last_env :: "IterVar list \<Rightarrow> int list \<Rightarrow> (string \<Rightarrow> int) \<Rightarrow> string \<Rightarrow> int" where
  "last_env fvar cs env x =
     (case map_of (map (\<lambda>(v, c). (var v, extent_of v * (c - 1))) (zip fvar cs)) x of
        Some d \<Rightarrow> env x + d
      | None \<Rightarrow> env x)"

section \<open>Facts about expressions\<close>

lemma eval_add [simp]: "eval env (add a b) = eval env a + eval env b"
  by (induction a b rule: add.induct) simp_all

lemma eval_sub [simp]: "eval env (sub a b) = eval env a - eval env b"
  by (induction a b rule: sub.induct) simp_all

lemma eval_mul [simp]: "eval env (mul a b) = eval env a * eval env b"
  by (induction a b rule: mul.induct) simp_all

lemma fv_add: "fv (add a b) \<subseteq> fv a \<union> fv b"
  by (induction a b rule: add.induct) auto

lemma fv_sub: "fv (sub a b) \<subseteq> fv a \<union> fv b"
  by (induction a b rule: sub.induct) auto

lemma fv_mul: "fv (mul a b) \<subseteq> fv a \<union> fv b"
  by (induction a b rule: mul.induct) auto

lemma eval_cong_fv: "(\<And>x. x \<in> fv e \<Longrightarrow> env x = env' x) \<Longrightarrow> eval env e = eval env' e"
  by (induction e) simp_all

lemma eval_Substitute:
  "eval env (Substitute e vmap) =
     eval (\<lambda>x. case vmap x of None \<Rightarrow> env x | Some t \<Rightarrow> eval env t) e"
  by (induction e) (simp_all split: option.split)

lemma fv_Substitute:
  "fv (Substitute e vmap) \<subseteq> (fv e - dom vmap) \<union> (\<Union>t \<in> ran vmap. fv t)"
  by (induction e) (auto split: option.split simp: ran_def)

subsection \<open>The swizzle functions compute the bitwise exclusive or\<close>

lemma eval_xor2x2: "eval env (xor2x2 i j) = (eval env i + eval env j) mod 2"
  by (simp add: xor2x2_def)

lemma eval_xor4x4:
  "eval env (xor4x4 i j) =
     2 * ((eval env i div 2 + eval env j div 2) mod 2) + (eval env i mod 2 + eval env j mod 2) mod 2"
  by (simp add: xor4x4_def Let_def eval_xor2x2)

lemma eval_xor8x8:
  "eval env (xor8x8 i j) =
     2 * (2 * ((eval env i div 2 div 2 + eval env j div 2 div 2) mod 2)
            + (eval env i div 2 mod 2 + eval env j div 2 mod 2) mod 2)
       + (eval env i mod 2 + eval env j mod 2) mod 2"
  by (simp add: xor8x8_def Let_def eval_xor2x2 eval_xor4x4)

lemma below_8_cases:
  "0 \<le> (x::int) \<Longrightarrow> x < 8 \<Longrightarrow> x = 0 \<or> x = 1 \<or> x = 2 \<or> x = 3 \<or> x = 4 \<or> x = 5 \<or> x = 6 \<or> x = 7"
  by arith

lemma xor2_arith:
  "0 \<le> (x::int) \<Longrightarrow> x < 2 \<Longrightarrow> 0 \<le> (y::int) \<Longrightarrow> y < 2 \<Longrightarrow> (x + y) mod 2 = x XOR y"
proof -
  assume "0 \<le> x" "x < 2" "0 \<le> y" "y < 2"
  then have "(x = 0 \<or> x = 1) \<and> (y = 0 \<or> y = 1)" by arith
  then show ?thesis by auto
qed

lemma xor4_arith:
  assumes "0 \<le> (x::int)" "x < 4" "0 \<le> (y::int)" "y < 4"
  shows "2 * ((x div 2 + y div 2) mod 2) + (x mod 2 + y mod 2) mod 2 = x XOR y"
proof -
  from assms have "(x = 0 \<or> x = 1 \<or> x = 2 \<or> x = 3) \<and> (y = 0 \<or> y = 1 \<or> y = 2 \<or> y = 3)"
    by arith
  then show ?thesis by auto
qed

lemma xor8_arith:
  assumes "0 \<le> (x::int)" "x < 8" "0 \<le> (y::int)" "y < 8"
  shows "2 * (2 * ((x div 2 div 2 + y div 2 div 2) mod 2) + (x div 2 mod 2 + y div 2 mod 2) mod 2)
           + (x mod 2 + y mod 2) mod 2 = x XOR y"
proof -
  have x: "x = 0 \<or> x = 1 \<or> x = 2 \<or> x = 3 \<or> x = 4 \<or> x = 5 \<or> x = 6 \<or> x = 7"
    using assms by (intro below_8_cases)
  have y: "y = 0 \<or> y = 1 \<or> y = 2 \<or> y = 3 \<or> y = 4 \<or> y = 5 \<or> y = 6 \<or> y = 7"
    using assms by (intro below_8_cases)
  from x y show ?thesis by auto
qed

text \<open>
  C10.  Whenever the two arguments take values \<open>i\<close> and \<open>j\<close> in \<open>[0, 8)\<close>, the expression
  built by \<open>xor8x8\<close> evaluates to the bitwise exclusive or of \<open>i\<close> and \<open>j\<close>; likewise
  \<open>xor4x4\<close> for values in \<open>[0, 4)\<close> and \<open>xor2x2\<close> for values in \<open>[0, 2)\<close>.
\<close>

theorem xor_swizzle_is_bitwise_xor:
  "(0 \<le> eval env i \<and> eval env i < 8 \<and> 0 \<le> eval env j \<and> eval env j < 8 \<longrightarrow>
      eval env (xor8x8 i j) = eval env i XOR eval env j) \<and>
   (0 \<le> eval env i \<and> eval env i < 4 \<and> 0 \<le> eval env j \<and> eval env j < 4 \<longrightarrow>
      eval env (xor4x4 i j) = eval env i XOR eval env j) \<and>
   (0 \<le> eval env i \<and> eval env i < 2 \<and> 0 \<le> eval env j \<and> eval env j < 2 \<longrightarrow>
      eval env (xor2x2 i j) = eval env i XOR eval env j)"
proof (intro conjI impI)
  assume "0 \<le> eval env i \<and> eval env i < 8 \<and> 0 \<le> eval env j \<and> eval env j < 8"
  then show "eval env (xor8x8 i j) = eval env i XOR eval env j"
    using xor8_arith [of "eval env i" "eval env j"] by (simp add: eval_xor8x8)
next
  assume "0 \<le> eval env i \<and> eval env i < 4 \<and> 0 \<le> eval env j \<and> eval env j < 4"
  then show "eval env (xor4x4 i j) = eval env i XOR eval env j"
    using xor4_arith [of "eval env i" "eval env j"] by (simp add: eval_xor4x4)
next
  assume "0 \<le> eval env i \<and> eval env i < 2 \<and> 0 \<le> eval env j \<and> eval env j < 2"
  then show "eval env (xor2x2 i j) = eval env i XOR eval env j"
    using xor2_arith [of "eval env i" "eval env j"] by (simp add: eval_xor2x2)
qed

theorem xor_swizzle_is_bitwise_xor_witness:
  "eval (\<lambda>_. 0) (xor8x8 (IntImm 5) (IntImm 3)) = 6 \<and>
   eval (\<lambda>_. 0) (xor4x4 (IntImm 3) (IntImm 1)) = 2 \<and>
   eval (\<lambda>_. 0) (xor2x2 (IntImm 1) (IntImm 1)) = 0"
  using xor_swizzle_is_bitwise_xor [of "\<lambda>_. 0" "IntImm 5" "IntImm 3"]
        xor_swizzle_is_bitwise_xor [of "\<lambda>_. 0" "IntImm 3" "IntImm 1"]
        xor_swizzle_is_bitwise_xor [of "\<lambda>_. 0" "IntImm 1" "IntImm 1"]
  by simp

subsection \<open>The shape of the outputs\<close>

lemma OutputShape_loop_Inr:
  "OutputShape_loop an bnds es = Inr sh \<Longrightarrow>
     length sh = length es \<and>
     (\<forall>i<length es. fst (int_set an bnds (add (es ! i) (IntImm 1))) = IntImm 1 \<and>
                     sh ! i = snd (int_set an bnds (add (es ! i) (IntImm 1))))"
proof (induction es arbitrary: sh)
  case Nil
  then show ?case by simp
next
  case (Cons e es)
  from Cons.prems obtain ret where
    one: "is_one (fst (int_set an bnds (add e (IntImm 1))))" and
    ret: "OutputShape_loop an bnds es = Inr ret" and
    sh: "sh = snd (int_set an bnds (add e (IntImm 1))) # ret"
    by (auto simp: Let_def split: if_splits sum.splits)
  from Cons.IH [OF ret] have len: "length ret = length es"
    and rest: "\<And>i. i < length es \<Longrightarrow>
                 fst (int_set an bnds (add (es ! i) (IntImm 1))) = IntImm 1 \<and>
                 ret ! i = snd (int_set an bnds (add (es ! i) (IntImm 1)))"
    by auto
  show ?case
  proof (intro conjI allI impI)
    show "length sh = length (e # es)" using sh len by simp
  next
    fix i assume "i < length (e # es)"
    then show "fst (int_set an bnds (add ((e # es) ! i) (IntImm 1))) = IntImm 1"
      using one rest by (cases i) (auto simp: is_one_def)
  next
    fix i assume "i < length (e # es)"
    then show "sh ! i = snd (int_set an bnds (add ((e # es) ! i) (IntImm 1)))"
      using sh rest by (cases i) auto
  qed
qed

lemma OutputShape_loop_Inl:
  "OutputShape_loop an bnds es = Inl err \<Longrightarrow>
     err = CheckFailed ''is_one(ist.min())'' \<and>
     (\<exists>i<length es. fst (int_set an bnds (add (es ! i) (IntImm 1))) \<noteq> IntImm 1)"
proof (induction es)
  case Nil
  then show ?case by simp
next
  case (Cons e es)
  show ?case
  proof (cases "is_one (fst (int_set an bnds (add e (IntImm 1))))")
    case False
    with Cons.prems have "err = CheckFailed ''is_one(ist.min())''"
      by (simp add: Let_def)
    moreover from False have "fst (int_set an bnds (add ((e # es) ! 0) (IntImm 1))) \<noteq> IntImm 1"
      by (simp add: is_one_def)
    ultimately show ?thesis by auto
  next
    case True
    with Cons.prems have "OutputShape_loop an bnds es = Inl err"
      by (auto simp: Let_def split: sum.splits)
    from Cons.IH [OF this] obtain i where
      "err = CheckFailed ''is_one(ist.min())''" "i < length es"
      "fst (int_set an bnds (add (es ! i) (IntImm 1))) \<noteq> IntImm 1"
      by auto
    then have "Suc i < length (e # es)"
      "fst (int_set an bnds (add ((e # es) ! Suc i) (IntImm 1))) \<noteq> IntImm 1"
      by auto
    with \<open>err = CheckFailed ''is_one(ist.min())''\<close> show ?thesis by blast
  qed
qed

text \<open>
  C9.  \<open>OutputShape\<close> either returns, for each output expression, the inferred maximum of
  \<open>expr + 1\<close>, the inferred minimum of \<open>expr + 1\<close> being the literal one for every output,
  or it fails the check, and then some output has an inferred minimum of \<open>expr + 1\<close> that
  is not one.  It returns no shape when an output has such a minimum.
\<close>

theorem OutputShape_returns_or_fails:
  "(case OutputShape an n of
      Inr shape \<Rightarrow>
        length shape = OutputDim n \<and>
        (\<forall>i<OutputDim n.
           fst (int_set an (UpdateAnalyzer n) (add (forward_index n ! i) (IntImm 1))) = IntImm 1 \<and>
           shape ! i = snd (int_set an (UpdateAnalyzer n) (add (forward_index n ! i) (IntImm 1))))
    | Inl err \<Rightarrow>
        err = CheckFailed ''is_one(ist.min())'' \<and>
        (\<exists>i<OutputDim n.
           fst (int_set an (UpdateAnalyzer n) (add (forward_index n ! i) (IntImm 1))) \<noteq> IntImm 1))"
proof (cases "OutputShape an n")
  case (Inl err)
  then show ?thesis
    using OutputShape_loop_Inl [of an "UpdateAnalyzer n" "forward_index n" err]
    by (simp add: OutputShape_def OutputDim_def)
next
  case (Inr shape)
  then show ?thesis
    using OutputShape_loop_Inr [of an "UpdateAnalyzer n" "forward_index n" shape]
    by (simp add: OutputShape_def OutputDim_def)
qed

theorem OutputShape_returns_or_fails_witness:
  "OutputShape small_engine
     (Layout small_engine [make_itervar ''i'' (IntImm 4)] [Var ''i'']) = Inr [IntImm 4] \<and>
   fst (int_set small_engine
          (UpdateAnalyzer (Layout small_engine [make_itervar ''i'' (IntImm 4)] [Var ''i'']))
          (add (Var ''i'') (IntImm 1))) = IntImm 1 \<and>
   OutputShape small_engine
     (Layout small_engine [make_itervar ''i'' (IntImm 4)] [Add (Var ''i'') (IntImm 2)])
     = Inl (CheckFailed ''is_one(ist.min())'')"
proof -
  let ?ok = "Layout small_engine [make_itervar ''i'' (IntImm 4)] [Var ''i'']"
  let ?bad = "Layout small_engine [make_itervar ''i'' (IntImm 4)] [Add (Var ''i'') (IntImm 2)]"
  have ok: "OutputShape small_engine ?ok = Inr [IntImm 4]"
    by code_simp
  have idx: "forward_index ?ok ! 0 = Var ''i''" "OutputDim ?ok = 1"
    by (simp_all add: Layout_def small_engine_def OutputDim_def Let_def)
  have bad: "isl (OutputShape small_engine ?bad)"
    by code_simp
  from OutputShape_returns_or_fails [where an = small_engine and n = ?ok] ok idx
  have "fst (int_set small_engine (UpdateAnalyzer ?ok) (add (Var ''i'') (IntImm 1))) = IntImm 1"
    by simp
  moreover from OutputShape_returns_or_fails [where an = small_engine and n = ?bad] bad
  have "OutputShape small_engine ?bad = Inl (CheckFailed ''is_one(ist.min())'')"
    by (cases "OutputShape small_engine ?bad") simp_all
  ultimately show ?thesis using ok by simp
qed

subsection \<open>Exact bounds\<close>

lemma in_dom_iff:
  "in_dom bnds env \<longleftrightarrow>
     (\<forall>(x, r) \<in> set bnds.
        eval env (min_r r) \<le> env x \<and> env x < eval env (min_r r) + eval env (extent r))"
  by (simp add: in_dom_def list_all_iff)

lemma in_dom_Cons:
  "in_dom ((x, r) # bnds) env \<longleftrightarrow>
     eval env (min_r r) \<le> env x \<and> env x < eval env (min_r r) + eval env (extent r) \<and>
     in_dom bnds env"
  by (simp add: in_dom_def)

lemma in_dom_append: "in_dom (as @ bs) env \<longleftrightarrow> in_dom as env \<and> in_dom bs env"
  by (simp add: in_dom_def)

lemma const_rangeE:
  assumes "const_range r"
  obtains lo ext where "min_r r = IntImm lo" "extent r = IntImm ext" "0 < ext"
  using assms by (auto simp: const_range_def split: PrimExpr.splits)

lemma const_bindings_Cons:
  "const_bindings ((x, r) # bnds) \<longleftrightarrow>
     x \<notin> fst ` set bnds \<and> const_range r \<and> const_bindings bnds"
  by (auto simp: const_bindings_def)

lemma const_bindings_range:
  "const_bindings bnds \<Longrightarrow> (x, r) \<in> set bnds \<Longrightarrow> const_range r"
  by (auto simp: const_bindings_def list_all_iff)

lemma bounds_of_unique:
  assumes "bounds_of bnds e lo hi" and "bounds_of bnds e lo' hi'"
  shows "lo = lo' \<and> hi = hi'"
proof -
  from assms(1) obtain e1 e2 where
    a: "\<And>env. in_dom bnds env \<Longrightarrow> lo \<le> eval env e \<and> eval env e \<le> hi"
    and e1: "in_dom bnds e1" "eval e1 e = lo" and e2: "in_dom bnds e2" "eval e2 e = hi"
    unfolding bounds_of_def by blast
  from assms(2) obtain e1' e2' where
    b: "\<And>env. in_dom bnds env \<Longrightarrow> lo' \<le> eval env e \<and> eval env e \<le> hi'"
    and e1': "in_dom bnds e1'" "eval e1' e = lo'" and e2': "in_dom bnds e2'" "eval e2' e = hi'"
    unfolding bounds_of_def by blast
  from a [OF e1'(1)] e1'(2) b [OF e1(1)] e1(2) have "lo = lo'" by linarith
  moreover from a [OF e2'(1)] e2'(2) b [OF e2(1)] e2(2) have "hi = hi'" by linarith
  ultimately show ?thesis ..
qed

lemma bounds_of_cong:
  assumes "\<And>env. in_dom bnds env \<Longrightarrow> eval env e = eval env e'"
  shows "bounds_of bnds e lo hi \<longleftrightarrow> bounds_of bnds e' lo hi"
  unfolding bounds_of_def using assms by (metis (no_types, lifting))

lemma bounds_of_add1:
  "bounds_of bnds (add e (IntImm 1)) lo hi \<longleftrightarrow> bounds_of bnds e (lo - 1) (hi - 1)"
proof -
  have *: "\<And>env v. eval env e + 1 = v \<longleftrightarrow> eval env e = v - 1" by auto
  have **: "\<And>env. (lo \<le> eval env e + 1 \<and> eval env e + 1 \<le> hi) \<longleftrightarrow>
                      (lo - 1 \<le> eval env e \<and> eval env e \<le> hi - 1)" by auto
  show ?thesis unfolding bounds_of_def eval_add eval.simps * ** ..
qed

lemma int_set_tight:
  assumes "tight_bounds an" "const_bindings bnds" "fv e \<subseteq> fst ` set bnds"
  obtains lo hi where "int_set an bnds e = (IntImm lo, IntImm hi)" "bounds_of bnds e lo hi"
  using assms unfolding tight_bounds_def by blast

lemma int_set_exact:
  assumes "tight_bounds an" "const_bindings bnds" "fv e \<subseteq> fst ` set bnds"
    and "bounds_of bnds e lo hi"
  shows "int_set an bnds e = (IntImm lo, IntImm hi)"
proof -
  from assms(1-3) obtain lo' hi' where
    "int_set an bnds e = (IntImm lo', IntImm hi')" "bounds_of bnds e lo' hi'"
    by (rule int_set_tight)
  with bounds_of_unique [OF assms(4) this(2)] show ?thesis by simp
qed

subsection \<open>The small engine meets what the spec asks\<close>

lemma assignments_in_dom:
  "const_bindings bnds \<Longrightarrow> env \<in> set (assignments bnds) \<Longrightarrow> in_dom bnds env"
proof (induction bnds arbitrary: env)
  case Nil
  then show ?case by (simp add: in_dom_def)
next
  case (Cons b bnds)
  obtain x r where b: "b = (x, r)" by (cases b)
  from Cons.prems(1) b have x: "x \<notin> fst ` set bnds" and r: "const_range r"
    and cb: "const_bindings bnds"
    by (simp_all add: const_bindings_Cons)
  from r obtain lo ext where lo: "min_r r = IntImm lo" "extent r = IntImm ext" "0 < ext"
    by (rule const_rangeE)
  from Cons.prems(2) b lo obtain v env' where
    v: "lo \<le> v" "v \<le> lo + ext - 1" and env': "env' \<in> set (assignments bnds)"
    and env: "env = env'(x := v)"
    by auto
  from Cons.IH [OF cb env'] have IH: "in_dom bnds env'" .
  have "in_dom bnds env"
    unfolding in_dom_iff
  proof (intro ballI, clarify)
    fix y s assume ys: "(y, s) \<in> set bnds"
    with x have "y \<noteq> x" by force
    from const_bindings_range [OF cb ys] obtain l e where
      "min_r s = IntImm l" "extent s = IntImm e" "0 < e" by (rule const_rangeE)
    with IH ys \<open>y \<noteq> x\<close> env
    show "eval env (min_r s) \<le> env y \<and> env y < eval env (min_r s) + eval env (extent s)"
      by (auto simp: in_dom_iff)
  qed
  moreover have "eval env (min_r r) \<le> env x \<and> env x < eval env (min_r r) + eval env (extent r)"
    using v lo env by simp
  ultimately show ?case unfolding b in_dom_Cons by blast
qed

lemma assignments_complete:
  "const_bindings bnds \<Longrightarrow> in_dom bnds env \<Longrightarrow>
     \<exists>env' \<in> set (assignments bnds). \<forall>x \<in> fst ` set bnds. env' x = env x"
proof (induction bnds)
  case Nil
  then show ?case by simp
next
  case (Cons b bnds)
  obtain x r where b: "b = (x, r)" by (cases b)
  from Cons.prems(1) b have x: "x \<notin> fst ` set bnds" and r: "const_range r"
    and cb: "const_bindings bnds"
    by (simp_all add: const_bindings_Cons)
  from r obtain lo ext where lo: "min_r r = IntImm lo" "extent r = IntImm ext" "0 < ext"
    by (rule const_rangeE)
  from Cons.prems(2) b lo have v: "lo \<le> env x" "env x \<le> lo + ext - 1" and d: "in_dom bnds env"
    by (simp_all add: in_dom_Cons)
  from Cons.IH [OF cb d] obtain env' where
    env': "env' \<in> set (assignments bnds)" "\<forall>y \<in> fst ` set bnds. env' y = env y"
    by blast
  have "env'(x := env x) \<in> set (assignments (b # bnds))"
    using env'(1) v lo b by auto
  moreover have "\<forall>y \<in> fst ` set (b # bnds). (env'(x := env x)) y = env y"
    using env'(2) b by auto
  ultimately show ?case by blast
qed

lemma assignments_nonempty: "const_bindings bnds \<Longrightarrow> assignments bnds \<noteq> []"
proof (induction bnds)
  case Nil
  then show ?case by simp
next
  case (Cons b bnds)
  obtain x r where b: "b = (x, r)" by (cases b)
  from Cons.prems b have r: "const_range r" and cb: "const_bindings bnds"
    by (simp_all add: const_bindings_Cons)
  from r obtain lo ext where lo: "min_r r = IntImm lo" "extent r = IntImm ext" "0 < ext"
    by (rule const_rangeE)
  from Cons.IH [OF cb] obtain a as where as: "assignments bnds = a # as"
    by (cases "assignments bnds") auto
  from lo(3) have "[lo..lo + ext - 1] = lo # [lo + 1..lo + ext - 1]"
    by (simp add: upto_rec1)
  with b lo as show ?case by simp
qed

lemma enum_int_set_tight:
  assumes cb: "const_bindings bnds" and fv: "fv e \<subseteq> fst ` set bnds"
  shows "\<exists>lo hi. enum_int_set bnds e = (IntImm lo, IntImm hi) \<and> bounds_of bnds e lo hi"
proof -
  let ?vals = "map (\<lambda>env. eval env e) (assignments bnds)"
  from assignments_nonempty [OF cb] obtain v vs where vals: "?vals = v # vs"
    by (cases "assignments bnds") auto
  let ?S = "set ?vals"
  have fin: "finite ?S" and ne: "?S \<noteq> {}" using vals by auto
  have enum: "enum_int_set bnds e = (IntImm (Min ?S), IntImm (Max ?S))"
    unfolding enum_int_set_def vals
    using Min.set_eq_fold [of v vs] Max.set_eq_fold [of v vs] by simp
  have inS: "eval env e \<in> ?S" if d: "in_dom bnds env" for env
  proof -
    from assignments_complete [OF cb d] obtain env' where
      env': "env' \<in> set (assignments bnds)" "\<forall>x \<in> fst ` set bnds. env' x = env x"
      by blast
    with fv have "eval env' e = eval env e"
      by (intro eval_cong_fv) auto
    then have "eval env e = (\<lambda>env. eval env e) env'" by simp
    then show ?thesis unfolding set_map using env'(1) by (rule image_eqI)
  qed
  have taken: "\<exists>env. in_dom bnds env \<and> eval env e = w" if "w \<in> ?S" for w
    using that assignments_in_dom [OF cb] by auto
  have "bounds_of bnds e (Min ?S) (Max ?S)"
    unfolding bounds_of_def
  proof (intro conjI allI impI)
    fix env assume "in_dom bnds env"
    from inS [OF this] show "Min ?S \<le> eval env e" "eval env e \<le> Max ?S"
      using fin by (auto intro: Min_le Max_ge)
  next
    show "\<exists>env. in_dom bnds env \<and> eval env e = Min ?S"
      using taken Min_in [OF fin ne] by blast
    show "\<exists>env. in_dom bnds env \<and> eval env e = Max ?S"
      using taken Max_in [OF fin ne] by blast
  qed
  with enum show ?thesis by blast
qed

lemma small_engine_ok: "engine_ok small_engine"
  unfolding engine_ok_def sound_simplify_def tight_bounds_def
  using enum_int_set_tight by (simp add: small_engine_def)

lemma bounds_by_enumeration:
  assumes "const_bindings bnds" "fv e \<subseteq> fst ` set bnds"
    and "enum_int_set bnds e = (IntImm lo, IntImm hi)"
  shows "bounds_of bnds e lo hi"
  using enum_int_set_tight [OF assms(1,2)] assms(3) by auto

subsection \<open>The constructor of Fragment\<close>

lemma Fragment_given:
  assumes "is_zero (min_r (dom_iv rep))" and "findex \<noteq> []"
  shows "Fragment an fvar findex fthread (Some rep) =
           Inr \<lparr>forward_var = fvar,
                forward_index =
                  map (Simplify an (map (\<lambda>iv. (var iv, dom_iv iv)) fvar @ [(var rep, dom_iv rep)]))
                    findex,
                forward_thread =
                  Simplify an (map (\<lambda>iv. (var iv, dom_iv iv)) fvar @ [(var rep, dom_iv rep)])
                    fthread,
                thread_replicate = rep\<rparr>"
  using assms
  by (simp add: Fragment_def Let_def FragmentNode_UpdateAnalyzer_def UpdateAnalyzer_def)

lemma Fragment_unused:
  assumes "findex \<noteq> []"
  shows "Fragment an fvar findex fthread None =
           Inr \<lparr>forward_var = fvar,
                forward_index =
                  map (Simplify an (map (\<lambda>iv. (var iv, dom_iv iv)) fvar @
                         [(''unused'', \<lparr>min_r = IntImm 0, extent = IntImm 1\<rparr>)]))
                    findex,
                forward_thread =
                  Simplify an (map (\<lambda>iv. (var iv, dom_iv iv)) fvar @
                         [(''unused'', \<lparr>min_r = IntImm 0, extent = IntImm 1\<rparr>)])
                    fthread,
                thread_replicate = make_itervar ''unused'' (IntImm 1)\<rparr>"
  using assms
  by (simp add: Fragment_def Let_def FragmentNode_UpdateAnalyzer_def UpdateAnalyzer_def
      make_itervar_def Range_begin_end_def is_zero_def)

lemma Fragment_forward_var:
  "Fragment an fvar findex fthread rep_opt = Inr n \<Longrightarrow> forward_var n = fvar"
  by (auto simp: Fragment_def Let_def split: if_splits sum.splits)

subsection \<open>Which loops the partitioner collects\<close>

lemma map_filter_append:
  "List.map_filter f (xs @ ys) = List.map_filter f xs @ List.map_filter f ys"
  by (simp add: List.map_filter_def)

lemma VisitStmt_loop_vars:
  "loop_vars (VisitStmt s p) = loop_vars p @ List.map_filter parallel_loop_var (substmts s)"
proof (induction s p rule: VisitStmt.induct)
  case (1 loop_var mn ext kind b p)
  then show ?case by (simp add: List.map_filter_simps loop_itervar_def)
next
  case (2 ss p)
  have "loop_vars (fold VisitStmt ts q) =
          loop_vars q @ List.map_filter parallel_loop_var (concat (map substmts ts))"
    if "set ts \<subseteq> set ss" for ts q
    using that
  proof (induction ts arbitrary: q)
    case Nil
    then show ?case by (simp add: List.map_filter_simps)
  next
    case (Cons t ts)
    from Cons.prems have t: "t \<in> set ss" and ts: "set ts \<subseteq> set ss" by auto
    from "2.IH" [OF t] Cons.IH [OF ts] show ?case
      by (simp add: map_filter_append)
  qed
  then show ?case by (simp add: List.map_filter_simps)
next
  case (3 c t e p)
  then show ?case by (simp add: List.map_filter_simps map_filter_append)
next
  case (4 x v b p)
  then show ?case by (simp add: List.map_filter_simps)
next
  case (5 buf v idx p)
  then show ?case by (simp add: List.map_filter_simps)
next
  case (6 v p)
  then show ?case by (simp add: List.map_filter_simps)
qed

lemma parallel_chain_prefix:
  "\<exists>rest. List.map_filter parallel_loop_var (substmts s) = parallel_chain s @ rest"
  by (induction s rule: parallel_chain.induct) (auto simp: List.map_filter_simps)

lemma Partition_forward_var:
  "Partition an p op num_thread = Inr n \<Longrightarrow> forward_var n = loop_vars (VisitStmt op p)"
  by (auto simp: Partition_def Let_def split: sum.splits if_splits prod.splits
      dest: Fragment_forward_var)

text \<open>
  What the visitor collects: the variable of every parallel loop of the statement tree
  under the loop it is given, in the order of the visit (a loop before the loops in its
  body).  The outermost contiguous chain of parallel loops is the beginning of what is
  collected; the parallel loops below a loop that is not parallel or below another
  statement are collected after it.
\<close>

lemma Partition_collects_every_parallel_loop:
  "loop_vars (VisitStmt op LoopPartitioner_default) = List.map_filter parallel_loop_var (substmts op) \<and>
   (\<exists>rest. loop_vars (VisitStmt op LoopPartitioner_default) = parallel_chain op @ rest) \<and>
   (\<forall>n. Partition an LoopPartitioner_default op num_thread = Inr n \<longrightarrow>
         forward_var n = List.map_filter parallel_loop_var (substmts op))"
proof -
  have a: "loop_vars (VisitStmt op LoopPartitioner_default) =
             List.map_filter parallel_loop_var (substmts op)"
    by (simp add: VisitStmt_loop_vars LoopPartitioner_default_def)
  moreover from parallel_chain_prefix [of op] a
  have "\<exists>rest. loop_vars (VisitStmt op LoopPartitioner_default) = parallel_chain op @ rest"
    by simp
  moreover have "\<forall>n. Partition an LoopPartitioner_default op num_thread = Inr n \<longrightarrow>
         forward_var n = List.map_filter parallel_loop_var (substmts op)"
    using Partition_forward_var [of an LoopPartitioner_default op num_thread] a by simp
  ultimately show ?thesis by blast
qed

lemma Partition_collects_every_parallel_loop_example:
  "(case Partition small_engine LoopPartitioner_default
           (For ''i'' (IntImm 0) (IntImm 4) kParallel
              (For ''j'' (IntImm 0) (IntImm 8) kParallel (Evaluate (Var ''j'')))) 4 of
      Inr n \<Rightarrow> map var (forward_var n) = [''i'', ''j'']
    | Inl err \<Rightarrow> False)"
proof -
  let ?op = "For ''i'' (IntImm 0) (IntImm 4) kParallel
              (For ''j'' (IntImm 0) (IntImm 8) kParallel (Evaluate (Var ''j'')))"
  have r: "\<not> isl (Partition small_engine LoopPartitioner_default ?op 4)"
    by code_simp
  then obtain n where n: "Partition small_engine LoopPartitioner_default ?op 4 = Inr n"
    by (cases "Partition small_engine LoopPartitioner_default ?op 4") auto
  with Partition_collects_every_parallel_loop [where an = small_engine and op = ?op and num_thread = 4]
  have "forward_var n = List.map_filter parallel_loop_var (substmts ?op)"
    by blast
  then have "map var (forward_var n) = [''i'', ''j'']"
    by (simp add: List.map_filter_simps loop_itervar_def)
  with n show ?thesis by simp
qed

text \<open>
  C4.  The spec has \<open>Partition\<close> collect the outermost contiguous chain of parallel
  loops only, and \<open>PartitionLoop\<close> strips as many loops from the top of the nest as
  \<open>Partition\<close> collected.  The visitor does not stop, though: below, the loop over \<open>j\<close>
  is parallel and lies under the serial loop over \<open>k\<close>, outside the outermost chain of
  parallel loops (which is the loop over \<open>i\<close> alone), and \<open>Partition\<close> collects it.
\<close>

theorem Partition_collects_below_serial_loop:
  "map var (parallel_chain
      (For ''i'' (IntImm 0) (IntImm 4) kParallel
         (For ''k'' (IntImm 0) (IntImm 2) kSerial
            (For ''j'' (IntImm 0) (IntImm 8) kParallel (Evaluate (Var ''j'')))))) = [''i''] \<and>
   (case Partition small_engine LoopPartitioner_default
           (For ''i'' (IntImm 0) (IntImm 4) kParallel
              (For ''k'' (IntImm 0) (IntImm 2) kSerial
                 (For ''j'' (IntImm 0) (IntImm 8) kParallel (Evaluate (Var ''j''))))) 4 of
      Inr n \<Rightarrow> map var (forward_var n) = [''i'', ''j'']
    | Inl err \<Rightarrow> False)"
  by code_simp

text \<open>
  C2, at the input of the spec.  The product of the extents is 256 and the thread count
  is 100, which does not divide it; the guard of this case is the \<open>ICHECK\<close> of a string
  literal, which holds, and \<open>Partition\<close> returns a Fragment, whatever the engine.
\<close>

theorem Partition_256_by_100_returns:
  "Partition an LoopPartitioner_default
     (For ''i'' (IntImm 0) (IntImm 256) kParallel (Evaluate (Var ''i''))) 100 =
   Inr \<lparr>forward_var = [loop_itervar ''i'' (IntImm 0) (IntImm 256)],
        forward_index =
          [Simplify an [(''i'', FromMinExtent (IntImm 0) (IntImm 256)),
                        (''unused'', Range_begin_end (IntImm 0) (IntImm 1))]
             (FloorDiv (Var ''i'') (IntImm 100))],
        forward_thread =
          Simplify an [(''i'', FromMinExtent (IntImm 0) (IntImm 256)),
                       (''unused'', Range_begin_end (IntImm 0) (IntImm 1))]
            (FloorMod (Var ''i'') (IntImm 100)),
        thread_replicate = make_itervar ''unused'' (IntImm 1)\<rparr>"
  by (simp add: Partition_def LoopPartitioner_default_def Let_def as_const_int_def
      FromMinExtent_def int32_of_def in_int32_def string_literal_as_bool_def Fragment_unused
      loop_itervar_def Range_begin_end_def is_zero_def)

subsection \<open>Mixed-radix numerals and the repeat index\<close>

lemma mixed_radix_bounds:
  "list_all (\<lambda>(q, c). 0 \<le> q \<and> q < c) l \<Longrightarrow>
     0 \<le> mixed_radix l \<and> mixed_radix l < prod_list (map snd l)"
proof (induction l)
  case Nil
  then show ?case by simp
next
  case (Cons a l)
  obtain q c where a: "a = (q, c)" by (cases a)
  from Cons.prems a have q: "0 \<le> q" "q < c" and l: "list_all (\<lambda>(q, c). 0 \<le> q \<and> q < c) l"
    by simp_all
  from Cons.IH [OF l] have m: "0 \<le> mixed_radix l" "mixed_radix l + 1 \<le> prod_list (map snd l)"
    by simp_all
  from q have c: "0 < c" by simp
  from m(2) c have "c * (mixed_radix l + 1) \<le> c * prod_list (map snd l)"
    by (intro mult_left_mono) simp_all
  then have "q + c * mixed_radix l < c * prod_list (map snd l)"
    using q by (simp add: algebra_simps)
  moreover from q m c have "0 \<le> q + c * mixed_radix l" by simp
  ultimately show ?case using a by simp
qed

lemma mixed_radix_zero: "list_all (\<lambda>(q, c). q = 0) l \<Longrightarrow> mixed_radix l = 0"
  by (induction l) auto

lemma mixed_radix_max:
  "list_all (\<lambda>(q, c). q = c - 1) l \<Longrightarrow> mixed_radix l = prod_list (map snd l) - 1"
proof (induction l)
  case Nil
  then show ?case by simp
next
  case (Cons a l)
  obtain q c where a: "a = (q, c)" by (cases a)
  from Cons.prems a have q: "q = c - 1" and l: "list_all (\<lambda>(q, c). q = c - 1) l"
    by simp_all
  from Cons.IH [OF l] have m: "mixed_radix l = prod_list (map snd l) - 1" .
  have "c - 1 + c * (prod_list (map snd l) - 1) = c * prod_list (map snd l) - 1"
    by (simp add: algebra_simps)
  then have "q + c * mixed_radix l = c * prod_list (map snd l) - 1"
    unfolding q m .
  then show ?case using a by simp
qed

lemma repeats_index_loop_eval:
  "eval env (fst (repeats_index_loop l (idx, stride))) =
     eval env idx +
     eval env stride * mixed_radix (map (\<lambda>(v, s, r). (eval env v div eval env s, eval env r)) l)"
proof (induction l arbitrary: idx stride)
  case Nil
  then show ?case by simp
next
  case (Cons a l)
  obtain v s r where a: "a = (v, s, r)" by (cases a)
  show ?case unfolding a by (simp add: Cons.IH algebra_simps)
qed

lemma repeats_index_loop_fv:
  "fv (fst (repeats_index_loop l (idx, stride))) \<union> fv (snd (repeats_index_loop l (idx, stride)))
     \<subseteq> fv idx \<union> fv stride \<union> (\<Union>(v, s, r) \<in> set l. fv v \<union> fv s \<union> fv r)"
proof (induction l arbitrary: idx stride)
  case Nil
  then show ?case by simp
next
  case (Cons a l)
  obtain v s r where a: "a = (v, s, r)" by (cases a)
  have 1: "fv (add idx (mul stride (FloorDiv v s))) \<subseteq> fv idx \<union> fv stride \<union> fv v \<union> fv s"
    using fv_add [of idx "mul stride (FloorDiv v s)"] fv_mul [of stride "FloorDiv v s"] by auto
  have 2: "fv (mul stride r) \<subseteq> fv stride \<union> fv r"
    by (rule fv_mul)
  from Cons.IH [of "add idx (mul stride (FloorDiv v s))" "mul stride r"] 1 2
  show ?case unfolding a by auto
qed

subsection \<open>Domains of Fragments\<close>

lemma FragmentNode_UpdateAnalyzer_frag_bindings:
  "FragmentNode_UpdateAnalyzer n = frag_bindings (forward_var n) (thread_replicate n)"
  by (simp add: FragmentNode_UpdateAnalyzer_def UpdateAnalyzer_def frag_bindings_def)

lemma in_dom_frag_bindings:
  "in_dom (frag_bindings fvar rep) env \<longleftrightarrow>
     (\<forall>v \<in> set fvar. eval env (min_r (dom_iv v)) \<le> env (var v) \<and>
                      env (var v) < eval env (min_r (dom_iv v)) + eval env (extent (dom_iv v))) \<and>
     in_dom [(var rep, dom_iv rep)] env"
  by (auto simp: frag_bindings_def in_dom_append in_dom_iff)

lemma in_dom_zero_vars:
  assumes "list_all zero_var fvar"
  shows "in_dom (frag_bindings fvar rep) env \<longleftrightarrow>
           (\<forall>v \<in> set fvar. 0 \<le> env (var v) \<and> env (var v) < extent_of v) \<and>
           in_dom [(var rep, dom_iv rep)] env"
proof -
  have "\<And>v. v \<in> set fvar \<Longrightarrow> min_r (dom_iv v) = IntImm 0 \<and> extent (dom_iv v) = IntImm (extent_of v)"
    using assms by (auto simp: list_all_iff zero_var_def)
  then show ?thesis unfolding in_dom_frag_bindings by auto
qed

lemma in_dom_rep_cong:
  assumes "const_range (dom_iv rep)" and "env' (var rep) = env (var rep)"
  shows "in_dom [(var rep, dom_iv rep)] env' \<longleftrightarrow> in_dom [(var rep, dom_iv rep)] env"
proof -
  from assms(1) obtain lo ext where "min_r (dom_iv rep) = IntImm lo" "extent (dom_iv rep) = IntImm ext"
    by (rule const_rangeE)
  with assms(2) show ?thesis by (simp add: in_dom_def)
qed

lemma const_bindings_frag:
  assumes "list_all (\<lambda>v. const_range (dom_iv v)) fvar" "const_range (dom_iv rep)"
    and "distinct (map var fvar @ [var rep])"
  shows "const_bindings (frag_bindings fvar rep)"
  using assms
  by (auto simp: const_bindings_def frag_bindings_def list_all_iff comp_def)

lemma fst_set_frag_bindings:
  "fst ` set (frag_bindings fvar rep) = set (map var fvar) \<union> {var rep}"
  by (auto simp: frag_bindings_def image_iff)

subsection \<open>The pieces of Repeat\<close>

lemma zero_var_dom:
  "zero_var v \<Longrightarrow> min_r (dom_iv v) = IntImm 0 \<and> extent (dom_iv v) = IntImm (extent_of v) \<and> 0 < extent_of v"
  by (auto simp: zero_var_def)

lemma zero_var_const_range: "zero_var v \<Longrightarrow> const_range (dom_iv v)"
  by (auto simp: zero_var_def const_range_def)

lemma Repeat_new_forward_var_scaled:
  assumes "length cs = length fvar" "list_all zero_var fvar"
  shows "Repeat_new_forward_var fvar (map IntImm cs) = scaled fvar cs"
  using assms
proof (induction cs fvar rule: list_induct2)
  case Nil
  then show ?case by (simp add: Repeat_new_forward_var_def scaled_def)
next
  case (Cons c cs v fvar)
  from Cons.prems have v: "zero_var v" and r: "list_all zero_var fvar" by simp_all
  from Cons.IH [OF r] v show ?case
    by (simp add: Repeat_new_forward_var_def scaled_def zero_var_def Range_begin_end_def is_zero_def)
qed

lemma scaled_zero_var:
  assumes "length cs = length fvar" "list_all zero_var fvar" "list_all (\<lambda>c. 0 < c) cs"
  shows "list_all zero_var (scaled fvar cs)"
  using assms
proof (induction cs fvar rule: list_induct2)
  case Nil
  then show ?case by (simp add: scaled_def)
next
  case (Cons c cs v fvar)
  then show ?case
    by (simp add: scaled_def zero_var_def extent_of_def)
qed

lemma map_var_scaled: "length cs = length fvar \<Longrightarrow> map var (scaled fvar cs) = map var fvar"
  by (induction cs fvar rule: list_induct2) (simp_all add: scaled_def)

lemma in_dom_scaled:
  assumes "length cs = length fvar"
  shows "in_dom (frag_bindings (scaled fvar cs) rep) env \<longleftrightarrow>
           (\<forall>(v, c) \<in> set (zip fvar cs). 0 \<le> env (var v) \<and> env (var v) < extent_of v * c) \<and>
           in_dom [(var rep, dom_iv rep)] env"
proof -
  let ?mk = "\<lambda>(v, c). \<lparr>dom_iv = \<lparr>min_r = IntImm 0, extent = IntImm (extent_of v * c)\<rparr>,
                          var = var v, iter_type = iter_type v\<rparr>"
  let ?P = "\<lambda>w. eval env (min_r (dom_iv w)) \<le> env (var w) \<and>
                 env (var w) < eval env (min_r (dom_iv w)) + eval env (extent (dom_iv w))"
  have "(\<forall>w \<in> set (scaled fvar cs). ?P w) \<longleftrightarrow> (\<forall>p \<in> set (zip fvar cs). ?P (?mk p))"
    by (simp add: scaled_def)
  also have "\<dots> \<longleftrightarrow> (\<forall>(v, c) \<in> set (zip fvar cs). 0 \<le> env (var v) \<and> env (var v) < extent_of v * c)"
    by (intro ball_cong refl) (simp add: split_def)
  finally show ?thesis unfolding in_dom_frag_bindings by simp
qed

lemma map_of_var_key:
  assumes "distinct (map var fvar)" "v \<in> set fvar"
  shows "map_of (map (\<lambda>v. (var v, f v)) fvar) (var v) = Some (f v)"
proof -
  have "distinct (map fst (map (\<lambda>v. (var v, f v)) fvar))"
    using assms(1) by (simp add: comp_def)
  moreover have "(var v, f v) \<in> set (map (\<lambda>v. (var v, f v)) fvar)"
    using assms(2) by auto
  ultimately show ?thesis by (rule map_of_is_SomeI)
qed

lemma map_of_var_none:
  "x \<notin> set (map var fvar) \<Longrightarrow> map_of (map (\<lambda>v. (var v, f v)) fvar) x = None"
  by (simp add: map_of_eq_None_iff image_iff comp_def)

lemma map_of_zip_key:
  assumes "length cs = length fvar" "distinct (map var fvar)" "(v, c) \<in> set (zip fvar cs)"
  shows "map_of (map (\<lambda>(v, c). (var v, f v c)) (zip fvar cs)) (var v) = Some (f v c)"
proof -
  have "map fst (map (\<lambda>(v, c). (var v, f v c)) (zip fvar cs)) = map var fvar"
    using assms(1) by (induction cs fvar rule: list_induct2) simp_all
  with assms(2) have "distinct (map fst (map (\<lambda>(v, c). (var v, f v c)) (zip fvar cs)))"
    by simp
  moreover have "(var v, f v c) \<in> set (map (\<lambda>(v, c). (var v, f v c)) (zip fvar cs))"
    using assms(3) by force
  ultimately show ?thesis by (rule map_of_is_SomeI)
qed

lemma map_of_zip_none:
  assumes "length cs = length fvar" "x \<notin> set (map var fvar)"
  shows "map_of (map (\<lambda>(v, c). (var v, f v c)) (zip fvar cs)) x = None"
proof -
  have "map fst (map (\<lambda>(v, c). (var v, f v c)) (zip fvar cs)) = map var fvar"
    using assms(1) by (induction cs fvar rule: list_induct2) simp_all
  with assms(2) show ?thesis
    unfolding map_of_eq_None_iff set_map [symmetric] by simp
qed

lemma fold_vmap_notin:
  "x \<notin> set (map var fvar) \<Longrightarrow>
     fold (\<lambda>(v, s) m. m(var v \<mapsto> FloorMod (Var (var v)) s)) (map (\<lambda>v. (v, g v)) fvar) m x = m x"
  by (induction fvar arbitrary: m) simp_all

lemma fold_vmap_in:
  "distinct (map var fvar) \<Longrightarrow> v \<in> set fvar \<Longrightarrow>
     fold (\<lambda>(v, s) m. m(var v \<mapsto> FloorMod (Var (var v)) s)) (map (\<lambda>v. (v, g v)) fvar) m (var v)
       = Some (FloorMod (Var (var v)) (g v))"
proof (induction fvar arbitrary: m)
  case Nil
  then show ?case by simp
next
  case (Cons w fvar)
  show ?case
  proof (cases "v \<in> set fvar")
    case True
    with Cons show ?thesis by simp
  next
    case False
    with Cons.prems have vw: "v = w" and "var w \<notin> set (map var fvar)" by auto
    from fold_vmap_notin [OF this(2), of g "m(var w \<mapsto> FloorMod (Var (var w)) (g w))"]
    have "fold (\<lambda>(v, s) m. m(var v \<mapsto> FloorMod (Var (var v)) s)) (map (\<lambda>v. (v, g v)) fvar)
            (m(var w \<mapsto> FloorMod (Var (var w)) (g w))) (var w) = Some (FloorMod (Var (var w)) (g w))"
      by simp
    then show ?thesis unfolding vw by (simp del: fun_upd_apply)
  qed
qed

lemma zip_map_same: "zip xs (map f xs) = map (\<lambda>x. (x, f x)) xs"
  by (induction xs) simp_all

lemma Repeat_vmap_in:
  "distinct (map var fvar) \<Longrightarrow> v \<in> set fvar \<Longrightarrow>
     Repeat_vmap fvar (map (\<lambda>iv. extent (dom_iv iv)) fvar) (var v)
       = Some (FloorMod (Var (var v)) (extent (dom_iv v)))"
  unfolding Repeat_vmap_def zip_map_same by (rule fold_vmap_in)

lemma Repeat_vmap_notin:
  "x \<notin> set (map var fvar) \<Longrightarrow>
     Repeat_vmap fvar (map (\<lambda>iv. extent (dom_iv iv)) fvar) x = None"
  unfolding Repeat_vmap_def zip_map_same by (simp add: fold_vmap_notin)

lemma eval_Repeat_vmap:
  assumes "distinct (map var fvar)" "list_all zero_var fvar"
  shows "eval env (Substitute t (Repeat_vmap fvar (map (\<lambda>iv. extent (dom_iv iv)) fvar)))
           = eval (wrap_env fvar env) t"
proof -
  let ?vmap = "Repeat_vmap fvar (map (\<lambda>iv. extent (dom_iv iv)) fvar)"
  have "(case ?vmap x of None \<Rightarrow> env x | Some u \<Rightarrow> eval env u) = wrap_env fvar env x" for x
  proof (cases "x \<in> set (map var fvar)")
    case False
    then show ?thesis
      by (simp add: Repeat_vmap_notin wrap_env_def map_of_var_none)
  next
    case True
    then obtain v where v: "v \<in> set fvar" "x = var v" by auto
    from assms(2) v(1) have "extent (dom_iv v) = IntImm (extent_of v)"
      by (auto simp: list_all_iff dest: zero_var_dom)
    with v assms(1) show ?thesis
      by (simp add: Repeat_vmap_in wrap_env_def map_of_var_key)
  qed
  then show ?thesis unfolding eval_Substitute by simp
qed

lemma fv_Repeat_vmap:
  assumes "distinct (map var fvar)"
  shows "fv (Substitute t (Repeat_vmap fvar (map (\<lambda>iv. extent (dom_iv iv)) fvar)))
           \<subseteq> fv t \<union> set (map var fvar) \<union> (\<Union>v \<in> set fvar. fv (extent (dom_iv v)))"
proof -
  let ?vmap = "Repeat_vmap fvar (map (\<lambda>iv. extent (dom_iv iv)) fvar)"
  have "fv u \<subseteq> set (map var fvar) \<union> (\<Union>v \<in> set fvar. fv (extent (dom_iv v)))"
    if "u \<in> ran ?vmap" for u
  proof -
    from that obtain x where x: "?vmap x = Some u" by (auto simp: ran_def)
    then have "x \<in> set (map var fvar)" using Repeat_vmap_notin [of x fvar] by force
    then obtain v where v: "v \<in> set fvar" "x = var v" by auto
    with x assms have "u = FloorMod (Var (var v)) (extent (dom_iv v))"
      by (simp add: Repeat_vmap_in)
    with v show ?thesis by auto
  qed
  with fv_Substitute [of t ?vmap] show ?thesis by blast
qed

subsection \<open>Assignments of the old and of the enlarged domain\<close>

lemma wrap_env_var:
  assumes "distinct (map var fvar)" "v \<in> set fvar"
  shows "wrap_env fvar env (var v) = env (var v) mod extent_of v"
  using map_of_var_key [OF assms, of extent_of] by (simp add: wrap_env_def)

lemma wrap_env_other: "x \<notin> set (map var fvar) \<Longrightarrow> wrap_env fvar env x = env x"
  by (simp add: wrap_env_def map_of_var_none)

lemma last_env_var:
  assumes "length cs = length fvar" "distinct (map var fvar)" "(v, c) \<in> set (zip fvar cs)"
  shows "last_env fvar cs env (var v) = env (var v) + extent_of v * (c - 1)"
  using map_of_zip_key [OF assms, of "\<lambda>v c. extent_of v * (c - 1)"] by (simp add: last_env_def)

lemma last_env_other:
  "length cs = length fvar \<Longrightarrow> x \<notin> set (map var fvar) \<Longrightarrow> last_env fvar cs env x = env x"
  by (simp add: last_env_def map_of_zip_none)

lemma zip_fst_mem: "(v, c) \<in> set (zip xs ys) \<Longrightarrow> v \<in> set xs"
  by (rule set_zip_leftD)

lemma zip_partner:
  "length ys = length xs \<Longrightarrow> v \<in> set xs \<Longrightarrow> \<exists>c. (v, c) \<in> set (zip xs ys)"
  by (induction ys xs rule: list_induct2) auto

text \<open>Reading an enlarged assignment in the old domain.\<close>

lemma wrap_env_in_dom:
  assumes len: "length cs = length fvar" and zv: "list_all zero_var fvar"
    and dist: "distinct (map var fvar @ [var rep])" and rep: "const_range (dom_iv rep)"
    and d: "in_dom (frag_bindings (scaled fvar cs) rep) env"
  shows "in_dom (frag_bindings fvar rep) (wrap_env fvar env)"
proof -
  from dist have dv: "distinct (map var fvar)" and nr: "var rep \<notin> set (map var fvar)" by auto
  have "0 \<le> wrap_env fvar env (var v) \<and> wrap_env fvar env (var v) < extent_of v"
    if "v \<in> set fvar" for v
  proof -
    from zv that have "0 < extent_of v" by (auto simp: list_all_iff dest: zero_var_dom)
    then show ?thesis by (simp add: wrap_env_var [OF dv that])
  qed
  moreover from d have "in_dom [(var rep, dom_iv rep)] env"
    by (simp add: in_dom_scaled [OF len])
  then have "in_dom [(var rep, dom_iv rep)] (wrap_env fvar env)"
    using in_dom_rep_cong [OF rep, of "wrap_env fvar env" env] wrap_env_other [OF nr] by simp
  ultimately show ?thesis by (simp add: in_dom_zero_vars [OF zv])
qed

text \<open>An assignment of the old domain is one of the enlarged domain, in the first repetition.\<close>

lemma old_in_dom_scaled:
  assumes len: "length cs = length fvar" and zv: "list_all zero_var fvar"
    and pos: "list_all (\<lambda>c. 0 < c) cs"
    and d: "in_dom (frag_bindings fvar rep) env"
  shows "in_dom (frag_bindings (scaled fvar cs) rep) env"
proof -
  from d have old: "\<And>v. v \<in> set fvar \<Longrightarrow> 0 \<le> env (var v) \<and> env (var v) < extent_of v"
    and r: "in_dom [(var rep, dom_iv rep)] env"
    by (simp_all add: in_dom_zero_vars [OF zv])
  have "0 \<le> env (var v) \<and> env (var v) < extent_of v * c" if "(v, c) \<in> set (zip fvar cs)" for v c
  proof -
    from that have v: "v \<in> set fvar" and c: "c \<in> set cs"
      by (auto dest: set_zip_leftD set_zip_rightD)
    from pos c have "1 \<le> c" by (auto simp: list_all_iff)
    moreover from old [OF v] have "0 \<le> extent_of v" by simp
    ultimately have "extent_of v * 1 \<le> extent_of v * c" by (intro mult_left_mono)
    then have "extent_of v \<le> extent_of v * c" by simp
    with old [OF v] show ?thesis by linarith
  qed
  with r show ?thesis unfolding in_dom_scaled [OF len] by auto
qed

lemma wrap_env_old:
  assumes zv: "list_all zero_var fvar" and dv: "distinct (map var fvar)"
    and d: "in_dom (frag_bindings fvar rep) env"
  shows "wrap_env fvar env = env"
proof
  fix x
  show "wrap_env fvar env x = env x"
  proof (cases "x \<in> set (map var fvar)")
    case False
    then show ?thesis by (rule wrap_env_other)
  next
    case True
    then obtain v where v: "v \<in> set fvar" "x = var v" by auto
    from d v(1) have "0 \<le> env (var v) \<and> env (var v) < extent_of v"
      by (simp add: in_dom_zero_vars [OF zv])
    with v show ?thesis by (simp add: wrap_env_var [OF dv v(1)])
  qed
qed

text \<open>Moving an assignment of the old domain to the last repetition.\<close>

lemma last_env_in_dom:
  assumes len: "length cs = length fvar" and zv: "list_all zero_var fvar"
    and pos: "list_all (\<lambda>c. 0 < c) cs"
    and dist: "distinct (map var fvar @ [var rep])" and rep: "const_range (dom_iv rep)"
    and d: "in_dom (frag_bindings fvar rep) env"
  shows "in_dom (frag_bindings (scaled fvar cs) rep) (last_env fvar cs env)"
proof -
  from dist have dv: "distinct (map var fvar)" and nr: "var rep \<notin> set (map var fvar)" by auto
  from d have old: "\<And>v. v \<in> set fvar \<Longrightarrow> 0 \<le> env (var v) \<and> env (var v) < extent_of v"
    and r: "in_dom [(var rep, dom_iv rep)] env"
    by (simp_all add: in_dom_zero_vars [OF zv])
  have "0 \<le> last_env fvar cs env (var v) \<and> last_env fvar cs env (var v) < extent_of v * c"
    if vc: "(v, c) \<in> set (zip fvar cs)" for v c
  proof -
    from vc have v: "v \<in> set fvar" and c: "c \<in> set cs"
      by (auto dest: set_zip_leftD set_zip_rightD)
    from pos c have c1: "0 \<le> c - 1" by (auto simp: list_all_iff)
    from old [OF v] have e: "0 \<le> extent_of v" by simp
    from e c1 have "0 \<le> extent_of v * (c - 1)" by (rule mult_nonneg_nonneg)
    moreover have "extent_of v * (c - 1) + extent_of v = extent_of v * c"
      by (simp add: algebra_simps)
    ultimately show ?thesis
      using old [OF v] by (simp add: last_env_var [OF len dv vc])
  qed
  moreover have "in_dom [(var rep, dom_iv rep)] (last_env fvar cs env)"
    using in_dom_rep_cong [OF rep, of "last_env fvar cs env" env] last_env_other [OF len nr] r
    by simp
  ultimately show ?thesis unfolding in_dom_scaled [OF len] by auto
qed

lemma wrap_last_env:
  assumes len: "length cs = length fvar" and zv: "list_all zero_var fvar"
    and dv: "distinct (map var fvar)"
    and d: "in_dom (frag_bindings fvar rep) env"
  shows "wrap_env fvar (last_env fvar cs env) = env"
proof
  fix x
  show "wrap_env fvar (last_env fvar cs env) x = env x"
  proof (cases "x \<in> set (map var fvar)")
    case False
    then show ?thesis by (simp add: wrap_env_other last_env_other [OF len])
  next
    case True
    then obtain v where v: "v \<in> set fvar" "x = var v" by auto
    from zip_partner [OF len v(1)] obtain c where vc: "(v, c) \<in> set (zip fvar cs)" ..
    from d v(1) have "0 \<le> env (var v) \<and> env (var v) < extent_of v"
      by (simp add: in_dom_zero_vars [OF zv])
    then show ?thesis
      unfolding v(2) wrap_env_var [OF dv v(1)] last_env_var [OF len dv vc]
      by simp
  qed
qed

subsection \<open>The value of the repeat index\<close>

lemma Repeat_dims:
  assumes "length cs = length fvar" "list_all zero_var fvar"
  shows "zip (map (\<lambda>v. Var (var v)) (scaled fvar cs))
             (zip (map (\<lambda>iv. extent (dom_iv iv)) fvar) (map IntImm cs))
         = map (\<lambda>(v, c). (Var (var v), IntImm (extent_of v), IntImm c)) (zip fvar cs)"
  using assms
proof (induction cs fvar rule: list_induct2)
  case Nil
  then show ?case by (simp add: scaled_def)
next
  case (Cons c cs v fvar)
  then show ?case by (simp add: scaled_def zero_var_def)
qed

lemma eval_Repeat_repeats_index:
  assumes "length cs = length fvar" "list_all zero_var fvar"
  shows "eval env (Repeat_repeats_index (scaled fvar cs) (map (\<lambda>iv. extent (dom_iv iv)) fvar)
                     (map IntImm cs) ldf)
         = mixed_radix (map (\<lambda>(v, c). (env (var v) div extent_of v, c))
                          (if ldf then rev (zip fvar cs) else zip fvar cs))"
proof -
  let ?g = "\<lambda>(v, c). (Var (var v), IntImm (extent_of v), IntImm c)"
  let ?f = "\<lambda>(v, s, r). (eval env v div eval env s, eval env r)"
  let ?h = "\<lambda>(v, c). (env (var v) div extent_of v, c)"
  let ?l = "if ldf then rev (zip fvar cs) else zip fvar cs"
  have fg: "map ?f (map ?g l) = map ?h l" for l :: "(IterVar \<times> int) list"
    by (induction l) auto
  have dims: "(if ldf then rev (map ?g (zip fvar cs)) else map ?g (zip fvar cs)) = map ?g ?l"
    by (simp add: rev_map)
  have "eval env (fst (repeats_index_loop (map ?g ?l) (IntImm 0, IntImm 1)))
          = mixed_radix (map ?f (map ?g ?l))"
    by (simp add: repeats_index_loop_eval)
  then show ?thesis
    unfolding Repeat_repeats_index_def Let_def Repeat_dims [OF assms] dims fg .
qed

lemma fv_Repeat_repeats_index:
  assumes "length cs = length fvar" "list_all zero_var fvar"
  shows "fv (Repeat_repeats_index (scaled fvar cs) (map (\<lambda>iv. extent (dom_iv iv)) fvar)
               (map IntImm cs) ldf) \<subseteq> set (map var fvar)"
proof -
  let ?g = "\<lambda>(v, c). (Var (var v), IntImm (extent_of v), IntImm c)"
  let ?l = "if ldf then rev (zip fvar cs) else zip fvar cs"
  have dims: "(if ldf then rev (map ?g (zip fvar cs)) else map ?g (zip fvar cs)) = map ?g ?l"
    by (simp add: rev_map)
  have "fv v \<union> fv s \<union> fv r \<subseteq> set (map var fvar)" if "(v, s, r) \<in> set (map ?g ?l)" for v s r
  proof -
    from that obtain w c where "(w, c) \<in> set (zip fvar cs)" "v = Var (var w)"
      "s = IntImm (extent_of w)" "r = IntImm c"
      by (auto split: if_splits)
    then show ?thesis by (auto dest: set_zip_leftD)
  qed
  then have U: "(\<Union>(v, s, r) \<in> set (map ?g ?l). fv v \<union> fv s \<union> fv r) \<subseteq> set (map var fvar)"
    by blast
  have "fv (fst (repeats_index_loop (map ?g ?l) (IntImm 0, IntImm 1)))
          \<subseteq> fv (IntImm 0) \<union> fv (IntImm 1) \<union> (\<Union>(v, s, r) \<in> set (map ?g ?l). fv v \<union> fv s \<union> fv r)"
    using repeats_index_loop_fv [of "map ?g ?l" "IntImm 0" "IntImm 1"] by (rule le_supE)
  then have "fv (fst (repeats_index_loop (map ?g ?l) (IntImm 0, IntImm 1)))
          \<subseteq> (\<Union>(v, s, r) \<in> set (map ?g ?l). fv v \<union> fv s \<union> fv r)"
    by simp
  then have "fv (fst (repeats_index_loop (map ?g ?l) (IntImm 0, IntImm 1))) \<subseteq> set (map var fvar)"
    using U by (rule subset_trans)
  then show ?thesis
    unfolding Repeat_repeats_index_def Let_def Repeat_dims [OF assms] dims .
qed

lemma div_less_of_less_mult:
  assumes "0 < (e::int)" "x < e * c"
  shows "x div e < c"
proof -
  have "e * (x div e) \<le> x"
    using mult_div_mod_eq [of e x] pos_mod_sign [OF assms(1), of x] by linarith
  with assms(2) have "e * (x div e) < e * c" by linarith
  with assms(1) show ?thesis by (simp add: mult_less_cancel_left_pos)
qed

lemma prod_list_snd_digits:
  fixes f :: "IterVar \<Rightarrow> int \<Rightarrow> int"
  assumes "length cs = length fvar"
  shows "prod_list (map snd (map (\<lambda>(v, c). (f v c, c))
                                (if ldf then rev (zip fvar cs) else zip fvar cs))) = prod_list cs"
proof -
  have 1: "map snd (map (\<lambda>(v, c). (f v c, c)) l) = map snd l" for l :: "(IterVar \<times> int) list"
    by (induction l) auto
  have 2: "map snd (zip fvar cs) = cs" using assms by simp
  show ?thesis
    unfolding 1 by (cases ldf) (simp_all add: 2 rev_map [symmetric] prod_list.rev)
qed

lemma repeat_index_range:
  assumes len: "length cs = length fvar" and zv: "list_all zero_var fvar"
    and d: "in_dom (frag_bindings (scaled fvar cs) rep) env"
  shows "0 \<le> eval env (Repeat_repeats_index (scaled fvar cs)
                        (map (\<lambda>iv. extent (dom_iv iv)) fvar) (map IntImm cs) ldf) \<and>
         eval env (Repeat_repeats_index (scaled fvar cs)
                        (map (\<lambda>iv. extent (dom_iv iv)) fvar) (map IntImm cs) ldf) < prod_list cs"
proof -
  let ?h = "\<lambda>(v, c). (env (var v) div extent_of v, c)"
  let ?l = "if ldf then rev (zip fvar cs) else zip fvar cs"
  have "0 \<le> env (var v) div extent_of v \<and> env (var v) div extent_of v < c"
    if "(v, c) \<in> set (zip fvar cs)" for v c
  proof -
    from that have v: "v \<in> set fvar" by (rule set_zip_leftD)
    with zv have e: "0 < extent_of v" by (auto simp: list_all_iff dest: zero_var_dom)
    from d that have x: "0 \<le> env (var v)" "env (var v) < extent_of v * c"
      by (auto simp: in_dom_scaled [OF len])
    from x(1) e have "0 \<le> env (var v) div extent_of v" by (simp add: pos_imp_zdiv_nonneg_iff)
    with div_less_of_less_mult [OF e x(2)] show ?thesis by simp
  qed
  then have "list_all (\<lambda>(q, c). 0 \<le> q \<and> q < c) (map ?h ?l)"
    by (auto simp: list_all_iff)
  from mixed_radix_bounds [OF this] show ?thesis
    unfolding eval_Repeat_repeats_index [OF len zv]
      prod_list_snd_digits [OF len, of "\<lambda>v c. env (var v) div extent_of v"] .
qed

lemma repeat_index_zero:
  assumes len: "length cs = length fvar" and zv: "list_all zero_var fvar"
    and d: "in_dom (frag_bindings fvar rep) env"
  shows "eval env (Repeat_repeats_index (scaled fvar cs)
                     (map (\<lambda>iv. extent (dom_iv iv)) fvar) (map IntImm cs) ldf) = 0"
proof -
  let ?h = "\<lambda>(v, c). (env (var v) div extent_of v, c)"
  let ?l = "if ldf then rev (zip fvar cs) else zip fvar cs"
  have "env (var v) div extent_of v = 0" if "(v, c) \<in> set (zip fvar cs)" for v c
  proof -
    from that have v: "v \<in> set fvar" by (rule set_zip_leftD)
    with d have "0 \<le> env (var v) \<and> env (var v) < extent_of v"
      by (simp add: in_dom_zero_vars [OF zv])
    then show ?thesis by (simp add: div_pos_pos_trivial)
  qed
  then have "list_all (\<lambda>(q, c). q = 0) (map ?h ?l)"
    by (auto simp: list_all_iff)
  from mixed_radix_zero [OF this] show ?thesis
    unfolding eval_Repeat_repeats_index [OF len zv] .
qed

lemma repeat_index_max:
  assumes len: "length cs = length fvar" and zv: "list_all zero_var fvar"
    and dv: "distinct (map var fvar)"
    and d: "in_dom (frag_bindings fvar rep) env"
  shows "eval (last_env fvar cs env)
           (Repeat_repeats_index (scaled fvar cs)
              (map (\<lambda>iv. extent (dom_iv iv)) fvar) (map IntImm cs) ldf) = prod_list cs - 1"
proof -
  let ?h = "\<lambda>(v, c). (last_env fvar cs env (var v) div extent_of v, c)"
  let ?l = "if ldf then rev (zip fvar cs) else zip fvar cs"
  have "last_env fvar cs env (var v) div extent_of v = c - 1"
    if vc: "(v, c) \<in> set (zip fvar cs)" for v c
  proof -
    from vc have v: "v \<in> set fvar" by (rule set_zip_leftD)
    with d have x: "0 \<le> env (var v) \<and> env (var v) < extent_of v"
      by (simp add: in_dom_zero_vars [OF zv])
    then have "env (var v) div extent_of v = 0" by (simp add: div_pos_pos_trivial)
    moreover from x have "extent_of v \<noteq> 0" by auto
    ultimately show ?thesis
      unfolding last_env_var [OF len dv vc] by simp
  qed
  then have "list_all (\<lambda>(q, c). q = c - 1) (map ?h ?l)"
    by (auto simp: list_all_iff)
  from mixed_radix_max [OF this] show ?thesis
    unfolding eval_Repeat_repeats_index [OF len zv]
      prod_list_snd_digits [OF len, of "\<lambda>v c. last_env fvar cs env (var v) div extent_of v"] .
qed

subsection \<open>Bounds after Repeat\<close>

lemma bounds_of_nonempty: "bounds_of bnds e lo hi \<Longrightarrow> lo \<le> hi"
  unfolding bounds_of_def by force

lemma Repeat_bounds_same:
  assumes len: "length cs = length fvar" and zv: "list_all zero_var fvar"
    and pos: "list_all (\<lambda>c. 0 < c) cs"
    and dist: "distinct (map var fvar @ [var rep])" and rep: "const_range (dom_iv rep)"
    and b: "bounds_of (frag_bindings fvar rep) t lo hi"
  shows "bounds_of (frag_bindings (scaled fvar cs) rep)
           (Substitute t (Repeat_vmap fvar (map (\<lambda>iv. extent (dom_iv iv)) fvar))) lo hi"
proof -
  from dist have dv: "distinct (map var fvar)" by simp
  let ?s = "Substitute t (Repeat_vmap fvar (map (\<lambda>iv. extent (dom_iv iv)) fvar))"
  have ev: "eval env ?s = eval (wrap_env fvar env) t" for env
    by (rule eval_Repeat_vmap [OF dv zv])
  from b obtain e1 e2 where
    all: "\<And>env. in_dom (frag_bindings fvar rep) env \<Longrightarrow> lo \<le> eval env t \<and> eval env t \<le> hi"
    and e1: "in_dom (frag_bindings fvar rep) e1" "eval e1 t = lo"
    and e2: "in_dom (frag_bindings fvar rep) e2" "eval e2 t = hi"
    unfolding bounds_of_def by blast
  show ?thesis unfolding bounds_of_def
  proof (intro conjI allI impI)
    fix env assume "in_dom (frag_bindings (scaled fvar cs) rep) env"
    from all [OF wrap_env_in_dom [OF len zv dist rep this]]
    show "lo \<le> eval env ?s" "eval env ?s \<le> hi" by (simp_all add: ev)
  next
    from old_in_dom_scaled [OF len zv pos e1(1)] e1(2) wrap_env_old [OF zv dv e1(1)]
    show "\<exists>env. in_dom (frag_bindings (scaled fvar cs) rep) env \<and> eval env ?s = lo"
      by (auto simp: ev)
    from old_in_dom_scaled [OF len zv pos e2(1)] e2(2) wrap_env_old [OF zv dv e2(1)]
    show "\<exists>env. in_dom (frag_bindings (scaled fvar cs) rep) env \<and> eval env ?s = hi"
      by (auto simp: ev)
  qed
qed

lemma Repeat_bounds_scaled:
  assumes len: "length cs = length fvar" and zv: "list_all zero_var fvar"
    and pos: "list_all (\<lambda>c. 0 < c) cs"
    and dist: "distinct (map var fvar @ [var rep])" and rep: "const_range (dom_iv rep)"
    and b: "bounds_of (frag_bindings fvar rep) t 0 (T - 1)"
  shows "bounds_of (frag_bindings (scaled fvar cs) rep)
           (add (Substitute t (Repeat_vmap fvar (map (\<lambda>iv. extent (dom_iv iv)) fvar)))
                (mul (IntImm T)
                   (Repeat_repeats_index (scaled fvar cs)
                      (map (\<lambda>iv. extent (dom_iv iv)) fvar) (map IntImm cs) ldf)))
           0 (T * prod_list cs - 1)"
proof -
  from dist have dv: "distinct (map var fvar)" by simp
  let ?s = "Substitute t (Repeat_vmap fvar (map (\<lambda>iv. extent (dom_iv iv)) fvar))"
  let ?r = "Repeat_repeats_index (scaled fvar cs)
              (map (\<lambda>iv. extent (dom_iv iv)) fvar) (map IntImm cs) ldf"
  let ?P = "prod_list cs"
  have ev: "eval env ?s = eval (wrap_env fvar env) t" for env
    by (rule eval_Repeat_vmap [OF dv zv])
  from bounds_of_nonempty [OF b] have T: "1 \<le> T" by simp
  from b obtain e1 e2 where
    all: "\<And>env. in_dom (frag_bindings fvar rep) env \<Longrightarrow> 0 \<le> eval env t \<and> eval env t \<le> T - 1"
    and e1: "in_dom (frag_bindings fvar rep) e1" "eval e1 t = 0"
    and e2: "in_dom (frag_bindings fvar rep) e2" "eval e2 t = T - 1"
    unfolding bounds_of_def by blast
  show ?thesis unfolding bounds_of_def
  proof (intro conjI allI impI)
    fix env assume d: "in_dom (frag_bindings (scaled fvar cs) rep) env"
    from all [OF wrap_env_in_dom [OF len zv dist rep d]]
    have s: "0 \<le> eval env ?s" "eval env ?s \<le> T - 1" by (simp_all add: ev)
    from repeat_index_range [OF len zv d, where ldf = ldf]
    have r: "0 \<le> eval env ?r" "eval env ?r + 1 \<le> ?P" by simp_all
    from T r(1) have "0 \<le> T * eval env ?r" by simp
    with s(1) show "0 \<le> eval env (add ?s (mul (IntImm T) ?r))" by simp
    from T r(2) have "T * (eval env ?r + 1) \<le> T * ?P" by (intro mult_left_mono) simp_all
    then have "T * eval env ?r + T \<le> T * ?P" by (simp add: algebra_simps)
    with s(2) show "eval env (add ?s (mul (IntImm T) ?r)) \<le> T * ?P - 1" by simp
  next
    have "eval e1 (add ?s (mul (IntImm T) ?r)) = 0"
      using e1(2) wrap_env_old [OF zv dv e1(1)] repeat_index_zero [OF len zv e1(1), where ldf = ldf]
      by (simp add: ev)
    with old_in_dom_scaled [OF len zv pos e1(1)]
    show "\<exists>env. in_dom (frag_bindings (scaled fvar cs) rep) env \<and>
                eval env (add ?s (mul (IntImm T) ?r)) = 0"
      by blast
  next
    let ?e = "last_env fvar cs e2"
    have "eval ?e (add ?s (mul (IntImm T) ?r)) = (T - 1) + T * (?P - 1)"
      using e2(2) wrap_last_env [OF len zv dv e2(1)] repeat_index_max [OF len zv dv e2(1), where ldf = ldf]
      by (simp add: ev)
    also have "\<dots> = T * ?P - 1" by (simp add: algebra_simps)
    finally have "eval ?e (add ?s (mul (IntImm T) ?r)) = T * ?P - 1" .
    with last_env_in_dom [OF len zv pos dist rep e2(1)]
    show "\<exists>env. in_dom (frag_bindings (scaled fvar cs) rep) env \<and>
                eval env (add ?s (mul (IntImm T) ?r)) = T * ?P - 1"
      by blast
  qed
qed

subsection \<open>Extents of well-formed Fragments\<close>

lemma checked_extent_iff:
  assumes tb: "tight_bounds an" and cb: "const_bindings bnds" and fv: "fv e \<subseteq> fst ` set bnds"
  shows "is_one (fst (int_set an bnds (add e (IntImm 1)))) \<and>
         snd (int_set an bnds (add e (IntImm 1))) = t
         \<longleftrightarrow> (\<exists>T. t = IntImm T \<and> bounds_of bnds e 0 (T - 1))"
proof -
  from fv fv_add [of e "IntImm 1"] have fv1: "fv (add e (IntImm 1)) \<subseteq> fst ` set bnds" by auto
  from tb cb fv1 obtain lo hi where
    ist: "int_set an bnds (add e (IntImm 1)) = (IntImm lo, IntImm hi)"
    and b: "bounds_of bnds (add e (IntImm 1)) lo hi"
    by (rule int_set_tight)
  from b have b': "bounds_of bnds e (lo - 1) (hi - 1)" by (simp add: bounds_of_add1)
  show ?thesis
  proof
    assume "is_one (fst (int_set an bnds (add e (IntImm 1)))) \<and>
            snd (int_set an bnds (add e (IntImm 1))) = t"
    with ist have "lo = 1" "t = IntImm hi" by (simp_all add: is_one_def)
    with b' show "\<exists>T. t = IntImm T \<and> bounds_of bnds e 0 (T - 1)" by auto
  next
    assume "\<exists>T. t = IntImm T \<and> bounds_of bnds e 0 (T - 1)"
    then obtain T where T: "t = IntImm T" "bounds_of bnds e 0 (T - 1)" by blast
    from bounds_of_unique [OF b' T(2)] have "lo = 1" "hi = T" by simp_all
    with ist T(1) show "is_one (fst (int_set an bnds (add e (IntImm 1)))) \<and>
            snd (int_set an bnds (add e (IntImm 1))) = t"
      by (simp add: is_one_def)
  qed
qed

lemma wf_const_bindings:
  "wf_fragment n \<Longrightarrow> const_bindings (FragmentNode_UpdateAnalyzer n)"
  unfolding FragmentNode_UpdateAnalyzer_frag_bindings wf_fragment_def
  by (intro const_bindings_frag) simp_all

lemma wf_fv_thread:
  "wf_fragment n \<Longrightarrow> fv (forward_thread n) \<subseteq> fst ` set (FragmentNode_UpdateAnalyzer n)"
  unfolding FragmentNode_UpdateAnalyzer_frag_bindings fst_set_frag_bindings wf_fragment_def
  by simp

lemma wf_fv_index:
  "wf_fragment n \<Longrightarrow> e \<in> set (forward_index n) \<Longrightarrow>
     fv e \<subseteq> fst ` set (FragmentNode_UpdateAnalyzer n)"
  unfolding FragmentNode_UpdateAnalyzer_frag_bindings fst_set_frag_bindings wf_fragment_def
  by (auto simp: list_all_iff)

lemma ThreadExtent_iff:
  assumes "tight_bounds an" "wf_fragment n"
  shows "ThreadExtent an n = Inr t \<longleftrightarrow>
           (\<exists>T. t = IntImm T \<and>
                bounds_of (FragmentNode_UpdateAnalyzer n) (forward_thread n) 0 (T - 1))"
  using checked_extent_iff [OF assms(1) wf_const_bindings [OF assms(2)] wf_fv_thread [OF assms(2)],
      of t]
  by (auto simp: ThreadExtent_def Let_def)

lemma ThreadExtent_literal:
  assumes "tight_bounds an" "wf_fragment n"
  shows "ThreadExtent an n = Inr (IntImm T) \<longleftrightarrow>
           bounds_of (FragmentNode_UpdateAnalyzer n) (forward_thread n) 0 (T - 1)"
  unfolding ThreadExtent_iff [OF assms] by simp

lemma OutputShape_single_iff:
  assumes "tight_bounds an" "wf_fragment n" "forward_index n = [idx]"
  shows "FragmentNode_OutputShape an n = Inr sh \<longleftrightarrow>
           (\<exists>L. sh = [IntImm L] \<and> bounds_of (FragmentNode_UpdateAnalyzer n) idx 0 (L - 1))"
proof -
  have "idx \<in> set (forward_index n)" using assms(3) by simp
  from checked_extent_iff [OF assms(1) wf_const_bindings [OF assms(2)] wf_fv_index [OF assms(2) this]]
  have *: "\<And>t. is_one (fst (int_set an (FragmentNode_UpdateAnalyzer n) (add idx (IntImm 1)))) \<and>
           snd (int_set an (FragmentNode_UpdateAnalyzer n) (add idx (IntImm 1))) = t
         \<longleftrightarrow> (\<exists>T. t = IntImm T \<and> bounds_of (FragmentNode_UpdateAnalyzer n) idx 0 (T - 1))" .
  show ?thesis
    using * [of "snd (int_set an (FragmentNode_UpdateAnalyzer n) (add idx (IntImm 1)))"]
      * [of "hd sh"]
    by (auto simp: FragmentNode_OutputShape_def assms(3) Let_def)
qed

lemma OutputShape_single_literal:
  assumes "tight_bounds an" "wf_fragment n" "forward_index n = [idx]"
  shows "FragmentNode_OutputShape an n = Inr [IntImm L] \<longleftrightarrow>
           bounds_of (FragmentNode_UpdateAnalyzer n) idx 0 (L - 1)"
  unfolding OutputShape_single_iff [OF assms] by simp

lemma Range_eqI: "min_r r = a \<Longrightarrow> extent r = b \<Longrightarrow> (r :: Range) = \<lparr>min_r = a, extent = b\<rparr>"
  by (cases r) simp

lemma wf_zero_vars:
  assumes "wf_fragment n" "zero_based n"
  shows "list_all zero_var (forward_var n)"
  unfolding list_all_iff
proof
  fix v assume v: "v \<in> set (forward_var n)"
  with assms(1) have "const_range (dom_iv v)" by (auto simp: wf_fragment_def list_all_iff)
  then obtain lo ext where r: "min_r (dom_iv v) = IntImm lo" "extent (dom_iv v) = IntImm ext" "0 < ext"
    by (rule const_rangeE)
  from assms(2) v have "min_r (dom_iv v) = IntImm 0" by (auto simp: zero_based_def list_all_iff)
  with r have "extent_of v = ext" "dom_iv v = \<lparr>min_r = IntImm 0, extent = IntImm ext\<rparr>"
    by (auto simp: extent_of_def intro: Range_eqI)
  with r(3) show "zero_var v" by (simp add: zero_var_def)
qed

subsection \<open>Fragments as the constructor builds them\<close>

lemma built_wf:
  assumes ss: "sound_simplify an"
    and cr: "list_all (\<lambda>v. const_range (dom_iv v)) fvar"
    and rep: "const_range (dom_iv rep)" "min_r (dom_iv rep) = IntImm 0"
    and dist: "distinct (map var fvar @ [var rep])"
    and th: "fv th \<subseteq> set (map var fvar) \<union> {var rep}"
    and ne: "idxs \<noteq> []"
    and ix: "\<And>e. e \<in> set idxs \<Longrightarrow> fv e \<subseteq> set (map var fvar)"
  shows "wf_fragment \<lparr>forward_var = fvar,
                       forward_index = map (Simplify an (frag_bindings fvar rep)) idxs,
                       forward_thread = Simplify an (frag_bindings fvar rep) th,
                       thread_replicate = rep\<rparr>"
proof -
  from ss have sfv: "\<And>b e. fv (Simplify an b e) \<subseteq> fv e"
    unfolding sound_simplify_def by blast
  have "fv (Simplify an (frag_bindings fvar rep) th) \<subseteq> set (map var fvar) \<union> {var rep}"
    using sfv [of "frag_bindings fvar rep" th] th by blast
  moreover have "list_all (\<lambda>e. fv e \<subseteq> set (map var fvar))
                   (map (Simplify an (frag_bindings fvar rep)) idxs)"
    unfolding list_all_iff
  proof
    fix e assume "e \<in> set (map (Simplify an (frag_bindings fvar rep)) idxs)"
    then obtain e' where e': "e' \<in> set idxs" "e = Simplify an (frag_bindings fvar rep) e'" by auto
    with sfv [of "frag_bindings fvar rep" e'] ix [OF e'(1)]
    show "fv e \<subseteq> set (map var fvar)" by blast
  qed
  ultimately show ?thesis
    using cr rep dist ne by (simp add: wf_fragment_def)
qed

lemma simplify_bounds:
  assumes "sound_simplify an"
  shows "bounds_of bnds (Simplify an bnds e) lo hi \<longleftrightarrow> bounds_of bnds e lo hi"
proof (rule bounds_of_cong)
  fix env assume "in_dom bnds env"
  with assms show "eval env (Simplify an bnds e) = eval env e"
    unfolding sound_simplify_def by blast
qed

subsection \<open>Repeat on well-formed Fragments\<close>

lemma wf_rep_zero: "wf_fragment n \<Longrightarrow> is_zero (min_r (dom_iv (thread_replicate n)))"
  by (simp add: wf_fragment_def is_zero_def)

lemma scaled_const_range:
  assumes "length cs = length fvar" "list_all zero_var fvar" "list_all (\<lambda>c. 0 < c) cs"
  shows "list_all (\<lambda>v. const_range (dom_iv v)) (scaled fvar cs)"
  using scaled_zero_var [OF assms] by (auto simp: list_all_iff intro: zero_var_const_range)

lemma scaled_zero_min:
  assumes "length cs = length fvar" "list_all zero_var fvar" "list_all (\<lambda>c. 0 < c) cs"
  shows "list_all (\<lambda>iv. min_r (dom_iv iv) = IntImm 0) (scaled fvar cs)"
  using scaled_zero_var [OF assms] by (auto simp: list_all_iff dest: zero_var_dom)

lemma fv_Repeat_vmap_zero:
  assumes "distinct (map var fvar)" "list_all zero_var fvar"
  shows "fv (Substitute t (Repeat_vmap fvar (map (\<lambda>iv. extent (dom_iv iv)) fvar)))
           \<subseteq> fv t \<union> set (map var fvar)"
proof -
  have "(\<Union>v \<in> set fvar. fv (extent (dom_iv v))) = {}"
    using assms(2) by (auto simp: list_all_iff dest!: zero_var_dom)
  with fv_Repeat_vmap [OF assms(1), of t] show ?thesis by simp
qed

lemma Repeat_on_thread_result:
  assumes ok: "engine_ok an" and wf: "wf_fragment n" and zb: "zero_based n"
    and len: "length cs = InputDim n" and pos: "list_all (\<lambda>c. 0 < c) cs"
    and te: "ThreadExtent an n = Inr (IntImm T)"
  shows "\<exists>n'. Repeat an n (map IntImm cs) True ldf = Inr n' \<and>
              forward_var n' = scaled (forward_var n) cs \<and>
              wf_fragment n' \<and> zero_based n' \<and>
              InputDim n' = InputDim n \<and> OutputDim n' = OutputDim n \<and>
              ThreadExtent an n' = Inr (IntImm (T * prod_list cs)) \<and>
              (\<forall>L. OutputDim n = 1 \<longrightarrow> FragmentNode_OutputShape an n = Inr [IntImm L] \<longrightarrow>
                   FragmentNode_OutputShape an n' = Inr [IntImm L])"
proof -
  from ok have ss: "sound_simplify an" and tb: "tight_bounds an" by (simp_all add: engine_ok_def)
  define fvar where "fvar = forward_var n"
  define rep where "rep = thread_replicate n"
  define V where "V = Repeat_vmap fvar (map (\<lambda>iv. extent (dom_iv iv)) fvar)"
  define R where "R = Repeat_repeats_index (scaled fvar cs)
                        (map (\<lambda>iv. extent (dom_iv iv)) fvar) (map IntImm cs) ldf"
  define B where "B = frag_bindings (scaled fvar cs) rep"
  define th where "th = add (Substitute (forward_thread n) V) (mul (IntImm T) R)"
  define n' where "n' = \<lparr>forward_var = scaled fvar cs,
                          forward_index = map (Simplify an B) (map (\<lambda>e. Substitute e V) (forward_index n)),
                          forward_thread = Simplify an B th,
                          thread_replicate = rep\<rparr>"
  have zv: "list_all zero_var fvar" unfolding fvar_def by (rule wf_zero_vars [OF wf zb])
  have len': "length cs = length fvar" using len by (simp add: InputDim_def fvar_def)
  have dist: "distinct (map var fvar @ [var rep])"
    using wf by (simp add: wf_fragment_def fvar_def rep_def)
  then have dv: "distinct (map var fvar)" by simp
  have repc: "const_range (dom_iv rep)" "min_r (dom_iv rep) = IntImm 0"
    using wf by (simp_all add: wf_fragment_def rep_def)
  have ne: "forward_index n \<noteq> []" using wf by (simp add: wf_fragment_def)
  have bn: "FragmentNode_UpdateAnalyzer n = frag_bindings fvar rep"
    by (simp add: FragmentNode_UpdateAnalyzer_frag_bindings fvar_def rep_def)
  have bn': "FragmentNode_UpdateAnalyzer n' = B"
    by (simp add: FragmentNode_UpdateAnalyzer_frag_bindings n'_def B_def)
  have res: "Repeat an n (map IntImm cs) True ldf = Inr n'"
    unfolding Repeat_def
    using len te ne wf_rep_zero [OF wf]
      Repeat_new_forward_var_scaled [OF len' zv]
    by (simp add: Let_def InputShape_def Fragment_given frag_bindings_def
        fvar_def [symmetric] rep_def [symmetric] V_def [symmetric] R_def [symmetric]
        th_def [symmetric] n'_def B_def)
  have fvth: "fv th \<subseteq> set (map var (scaled fvar cs)) \<union> {var rep}"
  proof -
    have "fv (forward_thread n) \<subseteq> set (map var fvar) \<union> {var rep}"
      using wf by (simp add: wf_fragment_def fvar_def rep_def)
    with fv_Repeat_vmap_zero [OF dv zv, of "forward_thread n"]
    have 1: "fv (Substitute (forward_thread n) V) \<subseteq> set (map var fvar) \<union> {var rep}"
      unfolding V_def by blast
    have 2: "fv R \<subseteq> set (map var fvar)"
      unfolding R_def by (rule fv_Repeat_repeats_index [OF len' zv])
    from fv_mul [of "IntImm T" R] have "fv (mul (IntImm T) R) \<subseteq> fv R" by simp
    then have 3: "fv (mul (IntImm T) R) \<subseteq> set (map var fvar)" using 2 by (rule subset_trans)
    have "fv th \<subseteq> fv (Substitute (forward_thread n) V) \<union> fv (mul (IntImm T) R)"
      unfolding th_def by (rule fv_add)
    also have "\<dots> \<subseteq> set (map var fvar) \<union> {var rep}"
    proof (rule Un_least)
      show "fv (Substitute (forward_thread n) V) \<subseteq> set (map var fvar) \<union> {var rep}" by (rule 1)
      show "fv (mul (IntImm T) R) \<subseteq> set (map var fvar) \<union> {var rep}"
        using 3 Un_upper1 by (rule subset_trans)
    qed
    finally have "fv th \<subseteq> set (map var fvar) \<union> {var rep}" .
    then show ?thesis by (simp add: map_var_scaled [OF len'])
  qed
  have fvix: "fv e \<subseteq> set (map var (scaled fvar cs))"
    if "e \<in> set (map (\<lambda>e. Substitute e V) (forward_index n))" for e
  proof -
    from that obtain e' where e': "e' \<in> set (forward_index n)" "e = Substitute e' V" by auto
    from wf e'(1) have "fv e' \<subseteq> set (map var fvar)"
      by (auto simp: wf_fragment_def list_all_iff fvar_def)
    with fv_Repeat_vmap_zero [OF dv zv, of e'] e'(2)
    show ?thesis unfolding V_def map_var_scaled [OF len'] by blast
  qed
  have wf': "wf_fragment n'"
    unfolding n'_def B_def
    by (rule built_wf [OF ss scaled_const_range [OF len' zv pos] repc _ fvth _ fvix])
      (use dist ne in \<open>simp_all add: map_var_scaled [OF len']\<close>)
  have zb': "zero_based n'"
    unfolding zero_based_def n'_def using scaled_zero_min [OF len' zv pos] by simp
  have dims: "InputDim n' = InputDim n" "OutputDim n' = OutputDim n"
    using len' by (simp_all add: InputDim_def OutputDim_def n'_def scaled_def fvar_def)
  from te have b: "bounds_of (frag_bindings fvar rep) (forward_thread n) 0 (T - 1)"
    unfolding ThreadExtent_literal [OF tb wf] bn .
  have te': "ThreadExtent an n' = Inr (IntImm (T * prod_list cs))"
    unfolding ThreadExtent_literal [OF tb wf'] bn'
    using Repeat_bounds_scaled [OF len' zv pos dist repc(1) b, of ldf]
    by (simp add: n'_def simplify_bounds [OF ss] th_def V_def R_def B_def)
  have os': "FragmentNode_OutputShape an n' = Inr [IntImm L]"
    if od: "OutputDim n = 1" and os: "FragmentNode_OutputShape an n = Inr [IntImm L]" for L
  proof -
    from od obtain idx where idx: "forward_index n = [idx]"
      by (cases "forward_index n") (auto simp: OutputDim_def)
    from os have bi: "bounds_of (frag_bindings fvar rep) idx 0 (L - 1)"
      unfolding OutputShape_single_literal [OF tb wf idx] bn .
    have idx': "forward_index n' = [Simplify an B (Substitute idx V)]"
      by (simp add: n'_def idx)
    show ?thesis
      unfolding OutputShape_single_literal [OF tb wf' idx'] bn'
      using Repeat_bounds_same [OF len' zv pos dist repc(1) bi]
      by (simp add: simplify_bounds [OF ss] V_def B_def)
  qed
  have fvn: "forward_var n' = scaled (forward_var n) cs" by (simp add: n'_def fvar_def)
  from res fvn wf' zb' dims te' os' show ?thesis by blast
qed

lemma Repeat_on_data_result:
  assumes ok: "engine_ok an" and wf: "wf_fragment n" and zb: "zero_based n"
    and len: "length cs = InputDim n" and pos: "list_all (\<lambda>c. 0 < c) cs"
    and od: "OutputDim n = 1"
    and te: "ThreadExtent an n = Inr (IntImm T)"
    and os: "FragmentNode_OutputShape an n = Inr [IntImm L]"
  shows "\<exists>n'. Repeat an n (map IntImm cs) False ldf = Inr n' \<and>
              forward_var n' = scaled (forward_var n) cs \<and>
              wf_fragment n' \<and> zero_based n' \<and>
              InputDim n' = InputDim n \<and> OutputDim n' = 1 \<and>
              ThreadExtent an n' = Inr (IntImm T) \<and>
              FragmentNode_OutputShape an n' = Inr [IntImm (L * prod_list cs)]"
proof -
  from ok have ss: "sound_simplify an" and tb: "tight_bounds an" by (simp_all add: engine_ok_def)
  define fvar where "fvar = forward_var n"
  define rep where "rep = thread_replicate n"
  define V where "V = Repeat_vmap fvar (map (\<lambda>iv. extent (dom_iv iv)) fvar)"
  define R where "R = Repeat_repeats_index (scaled fvar cs)
                        (map (\<lambda>iv. extent (dom_iv iv)) fvar) (map IntImm cs) ldf"
  define B where "B = frag_bindings (scaled fvar cs) rep"
  from od obtain idx where idx: "forward_index n = [idx]"
    by (cases "forward_index n") (auto simp: OutputDim_def)
  define ix where "ix = add (Substitute idx V) (mul (IntImm L) R)"
  define n' where "n' = \<lparr>forward_var = scaled fvar cs,
                          forward_index = map (Simplify an B) [ix],
                          forward_thread = Simplify an B (Substitute (forward_thread n) V),
                          thread_replicate = rep\<rparr>"
  have zv: "list_all zero_var fvar" unfolding fvar_def by (rule wf_zero_vars [OF wf zb])
  have len': "length cs = length fvar" using len by (simp add: InputDim_def fvar_def)
  have dist: "distinct (map var fvar @ [var rep])"
    using wf by (simp add: wf_fragment_def fvar_def rep_def)
  then have dv: "distinct (map var fvar)" by simp
  have repc: "const_range (dom_iv rep)" "min_r (dom_iv rep) = IntImm 0"
    using wf by (simp_all add: wf_fragment_def rep_def)
  have bn: "FragmentNode_UpdateAnalyzer n = frag_bindings fvar rep"
    by (simp add: FragmentNode_UpdateAnalyzer_frag_bindings fvar_def rep_def)
  have bn': "FragmentNode_UpdateAnalyzer n' = B"
    by (simp add: FragmentNode_UpdateAnalyzer_frag_bindings n'_def B_def)
  have res: "Repeat an n (map IntImm cs) False ldf = Inr n'"
    unfolding Repeat_def
    using len od os idx wf_rep_zero [OF wf]
      Repeat_new_forward_var_scaled [OF len' zv]
    by (simp add: Let_def InputShape_def Fragment_given frag_bindings_def
        fvar_def [symmetric] rep_def [symmetric] V_def [symmetric] R_def [symmetric]
        ix_def [symmetric] n'_def B_def)
  have fvth: "fv (Substitute (forward_thread n) V) \<subseteq> set (map var (scaled fvar cs)) \<union> {var rep}"
  proof -
    have "fv (forward_thread n) \<subseteq> set (map var fvar) \<union> {var rep}"
      using wf by (simp add: wf_fragment_def fvar_def rep_def)
    with fv_Repeat_vmap_zero [OF dv zv, of "forward_thread n"]
    show ?thesis unfolding V_def map_var_scaled [OF len'] by blast
  qed
  have fvix: "fv e \<subseteq> set (map var (scaled fvar cs))" if "e \<in> set [ix]" for e
  proof -
    from wf idx have "fv idx \<subseteq> set (map var fvar)"
      by (auto simp: wf_fragment_def fvar_def)
    with fv_Repeat_vmap_zero [OF dv zv, of idx]
    have 1: "fv (Substitute idx V) \<subseteq> set (map var fvar)" unfolding V_def by blast
    have 2: "fv R \<subseteq> set (map var fvar)"
      unfolding R_def by (rule fv_Repeat_repeats_index [OF len' zv])
    from fv_mul [of "IntImm L" R] have "fv (mul (IntImm L) R) \<subseteq> fv R" by simp
    then have 3: "fv (mul (IntImm L) R) \<subseteq> set (map var fvar)" using 2 by (rule subset_trans)
    have "fv ix \<subseteq> fv (Substitute idx V) \<union> fv (mul (IntImm L) R)"
      unfolding ix_def by (rule fv_add)
    also from 1 3 have "\<dots> \<subseteq> set (map var fvar)" by simp
    finally have "fv ix \<subseteq> set (map var fvar)" .
    with that show ?thesis by (simp add: map_var_scaled [OF len'])
  qed
  have wf': "wf_fragment n'"
    unfolding n'_def B_def
    by (rule built_wf [OF ss scaled_const_range [OF len' zv pos] repc _ fvth _ fvix])
      (use dist in \<open>simp_all add: map_var_scaled [OF len']\<close>)
  have zb': "zero_based n'"
    unfolding zero_based_def n'_def using scaled_zero_min [OF len' zv pos] by simp
  have dims: "InputDim n' = InputDim n" "OutputDim n' = 1"
    using len' by (simp_all add: InputDim_def OutputDim_def n'_def scaled_def fvar_def)
  from te have b: "bounds_of (frag_bindings fvar rep) (forward_thread n) 0 (T - 1)"
    unfolding ThreadExtent_literal [OF tb wf] bn .
  from os have bi: "bounds_of (frag_bindings fvar rep) idx 0 (L - 1)"
    unfolding OutputShape_single_literal [OF tb wf idx] bn .
  have te': "ThreadExtent an n' = Inr (IntImm T)"
    unfolding ThreadExtent_literal [OF tb wf'] bn'
    using Repeat_bounds_same [OF len' zv pos dist repc(1) b]
    by (simp add: n'_def simplify_bounds [OF ss] V_def B_def)
  have idx': "forward_index n' = [Simplify an B ix]"
    by (simp add: n'_def)
  have os': "FragmentNode_OutputShape an n' = Inr [IntImm (L * prod_list cs)]"
    unfolding OutputShape_single_literal [OF tb wf' idx'] bn'
    using Repeat_bounds_scaled [OF len' zv pos dist repc(1) bi, of ldf]
    by (simp add: simplify_bounds [OF ss] ix_def V_def R_def B_def)
  have fvn: "forward_var n' = scaled (forward_var n) cs" by (simp add: n'_def fvar_def)
  from res fvn wf' zb' dims te' os' show ?thesis by blast
qed

text \<open>
  \<open>Repeat\<close> on domains that start at zero, where the end of a range is its extent.  Let
  \<open>F\<close> be a well-formed Fragment whose input domains start at zero, and let the counts be
  positive literals, one for each input.  Then
  \<open>F.Repeat(counts, true, lower_dim_first)\<close> has the thread extent of \<open>F\<close> times the product
  of the counts; \<open>F.Repeat(counts, false, lower_dim_first)\<close> fails unless \<open>OutputDim() == 1\<close>,
  and then it leaves the thread extent as it is and multiplies the output extent by the
  product of the counts.
\<close>

lemma Repeat_extents:
  assumes "engine_ok an" and "wf_fragment n" and "zero_based n"
    and "length cs = InputDim n" and "list_all (\<lambda>c. 0 < c) cs"
  shows "(\<forall>T. ThreadExtent an n = Inr (IntImm T) \<longrightarrow>
            (\<exists>n'. Repeat an n (map IntImm cs) True lower_dim_first = Inr n' \<and>
                  ThreadExtent an n' = Inr (IntImm (T * prod_list cs)))) \<and>
         (OutputDim n \<noteq> 1 \<longrightarrow>
            Repeat an n (map IntImm cs) False lower_dim_first = Inl (CheckFailed ''OutputDim() == 1'')) \<and>
         (\<forall>T L. OutputDim n = 1 \<longrightarrow> ThreadExtent an n = Inr (IntImm T) \<longrightarrow>
              FragmentNode_OutputShape an n = Inr [IntImm L] \<longrightarrow>
            (\<exists>n'. Repeat an n (map IntImm cs) False lower_dim_first = Inr n' \<and>
                  ThreadExtent an n' = Inr (IntImm T) \<and>
                  FragmentNode_OutputShape an n' = Inr [IntImm (L * prod_list cs)]))"
proof (intro conjI allI impI)
  fix T assume "ThreadExtent an n = Inr (IntImm T)"
  from Repeat_on_thread_result [OF assms this, of lower_dim_first]
  show "\<exists>n'. Repeat an n (map IntImm cs) True lower_dim_first = Inr n' \<and>
             ThreadExtent an n' = Inr (IntImm (T * prod_list cs))"
    by blast
next
  assume "OutputDim n \<noteq> 1"
  with assms(4) show "Repeat an n (map IntImm cs) False lower_dim_first
                        = Inl (CheckFailed ''OutputDim() == 1'')"
    by (simp add: Repeat_def Let_def)
next
  fix T L
  assume "OutputDim n = 1" "ThreadExtent an n = Inr (IntImm T)"
    "FragmentNode_OutputShape an n = Inr [IntImm L]"
  from Repeat_on_data_result [OF assms this, of lower_dim_first]
  show "\<exists>n'. Repeat an n (map IntImm cs) False lower_dim_first = Inr n' \<and>
             ThreadExtent an n' = Inr (IntImm T) \<and>
             FragmentNode_OutputShape an n' = Inr [IntImm (L * prod_list cs)]"
    by blast
qed

lemma wf_atom:
  "wf_fragment \<lparr>forward_var = [make_itervar ''i'' (IntImm 8), make_itervar ''j'' (IntImm 8)],
                forward_index = [FloorMod (Var ''j'') (IntImm 2)],
                forward_thread = Add (FloorDiv (Var ''j'') (IntImm 2)) (Mul (IntImm 4) (Var ''i'')),
                thread_replicate = make_itervar ''rep'' (IntImm 1)\<rparr>"
  by (simp add: wf_fragment_def make_itervar_def Range_begin_end_def is_zero_def const_range_def)

lemma Repeat_extents_example:
  "engine_ok small_engine \<and>
   wf_fragment \<lparr>forward_var = [make_itervar ''i'' (IntImm 8), make_itervar ''j'' (IntImm 8)],
                forward_index = [FloorMod (Var ''j'') (IntImm 2)],
                forward_thread = Add (FloorDiv (Var ''j'') (IntImm 2)) (Mul (IntImm 4) (Var ''i'')),
                thread_replicate = make_itervar ''rep'' (IntImm 1)\<rparr> \<and>
   (\<exists>n'. Repeat small_engine
            \<lparr>forward_var = [make_itervar ''i'' (IntImm 8), make_itervar ''j'' (IntImm 8)],
             forward_index = [FloorMod (Var ''j'') (IntImm 2)],
             forward_thread = Add (FloorDiv (Var ''j'') (IntImm 2)) (Mul (IntImm 4) (Var ''i'')),
             thread_replicate = make_itervar ''rep'' (IntImm 1)\<rparr>
            (map IntImm [2, 3]) True False = Inr n' \<and>
          ThreadExtent small_engine n' = Inr (IntImm (32 * prod_list [2, 3]))) \<and>
   (\<exists>n'. Repeat small_engine
            \<lparr>forward_var = [make_itervar ''i'' (IntImm 8), make_itervar ''j'' (IntImm 8)],
             forward_index = [FloorMod (Var ''j'') (IntImm 2)],
             forward_thread = Add (FloorDiv (Var ''j'') (IntImm 2)) (Mul (IntImm 4) (Var ''i'')),
             thread_replicate = make_itervar ''rep'' (IntImm 1)\<rparr>
            (map IntImm [2, 3]) False False = Inr n' \<and>
          ThreadExtent small_engine n' = Inr (IntImm 32) \<and>
          FragmentNode_OutputShape small_engine n' = Inr [IntImm (2 * prod_list [2, 3])])"
proof -
  let ?n = "\<lparr>forward_var = [make_itervar ''i'' (IntImm 8), make_itervar ''j'' (IntImm 8)],
             forward_index = [FloorMod (Var ''j'') (IntImm 2)],
             forward_thread = Add (FloorDiv (Var ''j'') (IntImm 2)) (Mul (IntImm 4) (Var ''i'')),
             thread_replicate = make_itervar ''rep'' (IntImm 1)\<rparr>"
  have zb: "zero_based ?n"
    by (simp add: zero_based_def make_itervar_def Range_begin_end_def is_zero_def)
  have len: "length [2, 3 :: int] = InputDim ?n" by (simp add: InputDim_def)
  have pos: "list_all (\<lambda>c. 0 < c) [2, 3 :: int]" by simp
  have od: "OutputDim ?n = 1" by (simp add: OutputDim_def)
  have te: "ThreadExtent small_engine ?n = Inr (IntImm 32)" by code_simp
  have os: "FragmentNode_OutputShape small_engine ?n = Inr [IntImm 2]" by code_simp
  from Repeat_extents [OF small_engine_ok wf_atom zb len pos, of False] od te os
  show ?thesis using small_engine_ok wf_atom by blast
qed

subsection \<open>Repeat on a domain that does not start at zero\<close>

text \<open>
  C5, at a Fragment whose input domain does not start at zero.  The Fragment below maps
  \<open>v\<close> in \<open>[2, 6)\<close> to the index and to the thread \<open>v - 2\<close>; its thread extent is 4.
  \<open>Repeat({2}, true)\<close> enlarges the domain to \<open>Range(v->dom->min, v->dom->extent * 2)\<close>,
  where the second argument of \<open>Range\<close> is the end of the range, not its extent: the new
  domain is \<open>[2, 8)\<close>, of 6 points, and not the \<open>4 * 2\<close> points from 2 on.  So, whatever
  the engine, the thread extent of the result is 6, not \<open>4 * 2\<close>, and the output shape of
  the result fails its check (the index \<open>v mod 4 - 2\<close> is negative at \<open>v = 4\<close>).
\<close>

theorem Repeat_nonzero_min_thread_extent:
  assumes "engine_ok an"
  shows "ThreadExtent an
           \<lparr>forward_var = [\<lparr>dom_iv = FromMinExtent (IntImm 2) (IntImm 4), var = ''v'',
                             iter_type = kDataPar\<rparr>],
            forward_index = [Sub (Var ''v'') (IntImm 2)],
            forward_thread = Sub (Var ''v'') (IntImm 2),
            thread_replicate = make_itervar ''unused'' (IntImm 1)\<rparr> = Inr (IntImm 4) \<and>
         (\<exists>n'. Repeat an
                  \<lparr>forward_var = [\<lparr>dom_iv = FromMinExtent (IntImm 2) (IntImm 4), var = ''v'',
                                    iter_type = kDataPar\<rparr>],
                   forward_index = [Sub (Var ''v'') (IntImm 2)],
                   forward_thread = Sub (Var ''v'') (IntImm 2),
                   thread_replicate = make_itervar ''unused'' (IntImm 1)\<rparr>
                  [IntImm 2] True lower_dim_first = Inr n' \<and>
               map dom_iv (forward_var n') = [\<lparr>min_r = IntImm 2, extent = IntImm 6\<rparr>] \<and>
               ThreadExtent an n' = Inr (IntImm 6) \<and>
               ThreadExtent an n' \<noteq> Inr (IntImm (4 * prod_list [2])) \<and>
               FragmentNode_OutputShape an n' = Inl (CheckFailed ''is_one(ist.min())''))"
proof -
  from assms have ss: "sound_simplify an" and tb: "tight_bounds an"
    by (simp_all add: engine_ok_def)
  define v where "v = \<lparr>dom_iv = \<lparr>min_r = IntImm 2, extent = IntImm 4\<rparr>, var = ''v'',
                        iter_type = kDataPar\<rparr>"
  define v' where "v' = \<lparr>dom_iv = \<lparr>min_r = IntImm 2, extent = IntImm 6\<rparr>, var = ''v'',
                          iter_type = kDataPar\<rparr>"
  define rep where "rep = \<lparr>dom_iv = \<lparr>min_r = IntImm 0, extent = IntImm 1\<rparr>, var = ''unused'',
                            iter_type = kDataPar\<rparr>"
  define F where "F = \<lparr>forward_var = [v], forward_index = [Sub (Var ''v'') (IntImm 2)],
                        forward_thread = Sub (Var ''v'') (IntImm 2), thread_replicate = rep\<rparr>"
  define B where "B = [(''v'', \<lparr>min_r = IntImm 2, extent = IntImm 4\<rparr>),
                        (''unused'', \<lparr>min_r = IntImm 0, extent = IntImm 1\<rparr>)]"
  define B' where "B' = [(''v'', \<lparr>min_r = IntImm 2, extent = IntImm 6\<rparr>),
                          (''unused'', \<lparr>min_r = IntImm 0, extent = IntImm 1\<rparr>)]"
  define ix where "ix = Sub (FloorMod (Var ''v'') (IntImm 4)) (IntImm 2)"
  define th where "th = Add ix (Mul (IntImm 4) (FloorDiv (Var ''v'') (IntImm 4)))"
  define n' where "n' = \<lparr>forward_var = [v'], forward_index = map (Simplify an B') [ix],
                          forward_thread = Simplify an B' th, thread_replicate = rep\<rparr>"
  have Feq: "\<lparr>forward_var = [\<lparr>dom_iv = FromMinExtent (IntImm 2) (IntImm 4), var = ''v'',
                                iter_type = kDataPar\<rparr>],
               forward_index = [Sub (Var ''v'') (IntImm 2)],
               forward_thread = Sub (Var ''v'') (IntImm 2),
               thread_replicate = make_itervar ''unused'' (IntImm 1)\<rparr> = F"
    by (simp add: F_def v_def rep_def FromMinExtent_def make_itervar_def Range_begin_end_def
        is_zero_def)
  have wfF: "wf_fragment F"
    by (simp add: wf_fragment_def F_def v_def rep_def const_range_def)
  have bF: "FragmentNode_UpdateAnalyzer F = B"
    by (simp add: FragmentNode_UpdateAnalyzer_def UpdateAnalyzer_def F_def v_def rep_def B_def)
  have cB: "const_bindings B" by (simp add: B_def const_bindings_def const_range_def)
  have cB': "const_bindings B'" by (simp add: B'_def const_bindings_def const_range_def)
  have b0: "bounds_of B (Sub (Var ''v'') (IntImm 2)) 0 3"
  proof (rule bounds_by_enumeration [OF cB])
    show "fv (Sub (Var ''v'') (IntImm 2)) \<subseteq> fst ` set B" by (simp add: B_def)
    show "enum_int_set B (Sub (Var ''v'') (IntImm 2)) = (IntImm 0, IntImm 3)"
      unfolding B_def by code_simp
  qed
  have teF: "ThreadExtent an F = Inr (IntImm 4)"
    unfolding ThreadExtent_literal [OF tb wfF] bF using b0 by (simp add: F_def)
  have nv: "Repeat_new_forward_var [v] [IntImm 2] = [v']"
    by (simp add: Repeat_new_forward_var_def v_def v'_def Range_begin_end_def is_zero_def)
  have vm: "Substitute (Sub (Var ''v'') (IntImm 2)) (Repeat_vmap [v] [IntImm 4]) = ix"
    by (simp add: Repeat_vmap_def v_def ix_def)
  have ri: "Repeat_repeats_index [v'] [IntImm 4] [IntImm 2] lower_dim_first
              = FloorDiv (Var ''v'') (IntImm 4)"
    by (simp add: Repeat_repeats_index_def v'_def Let_def)
  have fr: "Fragment an [v'] [ix] th (Some rep) = Inr n'"
    by (simp add: Fragment_given rep_def is_zero_def n'_def B'_def v'_def)
  have res: "Repeat an F [IntImm 2] True lower_dim_first = Inr n'"
  proof -
    have "Repeat an F [IntImm 2] True lower_dim_first =
            Fragment an [v'] [ix]
              (add ix (mul (IntImm 4) (FloorDiv (Var ''v'') (IntImm 4)))) (Some rep)"
      unfolding Repeat_def using teF nv vm ri
      by (simp add: Let_def InputDim_def InputShape_def F_def v_def
          del: add.simps mul.simps)
    also have "add ix (mul (IntImm 4) (FloorDiv (Var ''v'') (IntImm 4))) = th"
      by (simp add: th_def ix_def)
    finally show ?thesis using fr by simp
  qed
  have B'eq: "frag_bindings [v'] rep = B'"
    by (simp add: frag_bindings_def v'_def rep_def B'_def)
  have wf': "wf_fragment n'"
    unfolding n'_def B'eq [symmetric]
    by (rule built_wf [OF ss]) (simp_all add: v'_def rep_def const_range_def th_def ix_def)
  have bn': "FragmentNode_UpdateAnalyzer n' = B'"
    by (simp add: FragmentNode_UpdateAnalyzer_frag_bindings n'_def B'eq)
  have b1: "bounds_of B' th 0 5"
  proof (rule bounds_by_enumeration [OF cB'])
    show "fv th \<subseteq> fst ` set B'" by (simp add: B'_def th_def ix_def)
    show "enum_int_set B' th = (IntImm 0, IntImm 5)"
      unfolding B'_def th_def ix_def by code_simp
  qed
  have b2: "bounds_of B' ix (- 2) 1"
  proof (rule bounds_by_enumeration [OF cB'])
    show "fv ix \<subseteq> fst ` set B'" by (simp add: B'_def ix_def)
    show "enum_int_set B' ix = (IntImm (- 2), IntImm 1)"
      unfolding B'_def ix_def by code_simp
  qed
  have te': "ThreadExtent an n' = Inr (IntImm 6)"
    unfolding ThreadExtent_literal [OF tb wf'] bn'
    using b1 by (simp add: n'_def simplify_bounds [OF ss])
  have idx': "forward_index n' = [Simplify an B' ix]" by (simp add: n'_def)
  have no: "FragmentNode_OutputShape an n' \<noteq> Inr sh" for sh
  proof
    assume "FragmentNode_OutputShape an n' = Inr sh"
    then obtain L where "bounds_of B' (Simplify an B' ix) 0 (L - 1)"
      unfolding OutputShape_single_iff [OF tb wf' idx'] bn' by blast
    then have "bounds_of B' ix 0 (L - 1)" by (simp add: simplify_bounds [OF ss])
    from bounds_of_unique [OF b2 this] show False by simp
  qed
  have os': "FragmentNode_OutputShape an n' = Inl (CheckFailed ''is_one(ist.min())'')"
    using no [of "[snd (int_set an B' (add (Simplify an B' ix) (IntImm 1)))]"]
    by (simp add: FragmentNode_OutputShape_def idx' bn' Let_def split: if_splits)
  have "map dom_iv (forward_var n') = [\<lparr>min_r = IntImm 2, extent = IntImm 6\<rparr>]"
    by (simp add: n'_def v'_def)
  with teF res te' os' show ?thesis unfolding Feq by simp
qed

theorem Repeat_nonzero_min_thread_extent_witness:
  "engine_ok small_engine \<and>
   Fragment small_engine
     [\<lparr>dom_iv = FromMinExtent (IntImm 2) (IntImm 4), var = ''v'', iter_type = kDataPar\<rparr>]
     [Sub (Var ''v'') (IntImm 2)] (Sub (Var ''v'') (IntImm 2)) None =
   Inr \<lparr>forward_var = [\<lparr>dom_iv = FromMinExtent (IntImm 2) (IntImm 4), var = ''v'',
                         iter_type = kDataPar\<rparr>],
        forward_index = [Sub (Var ''v'') (IntImm 2)],
        forward_thread = Sub (Var ''v'') (IntImm 2),
        thread_replicate = make_itervar ''unused'' (IntImm 1)\<rparr> \<and>
   (\<exists>n'. Repeat small_engine
            \<lparr>forward_var = [\<lparr>dom_iv = FromMinExtent (IntImm 2) (IntImm 4), var = ''v'',
                              iter_type = kDataPar\<rparr>],
             forward_index = [Sub (Var ''v'') (IntImm 2)],
             forward_thread = Sub (Var ''v'') (IntImm 2),
             thread_replicate = make_itervar ''unused'' (IntImm 1)\<rparr>
            [IntImm 2] True True = Inr n' \<and>
         ThreadExtent small_engine n' = Inr (IntImm 6) \<and>
         FragmentNode_OutputShape small_engine n' = Inl (CheckFailed ''is_one(ist.min())''))"
proof -
  have "Fragment small_engine
     [\<lparr>dom_iv = FromMinExtent (IntImm 2) (IntImm 4), var = ''v'', iter_type = kDataPar\<rparr>]
     [Sub (Var ''v'') (IntImm 2)] (Sub (Var ''v'') (IntImm 2)) None =
   Inr \<lparr>forward_var = [\<lparr>dom_iv = FromMinExtent (IntImm 2) (IntImm 4), var = ''v'',
                         iter_type = kDataPar\<rparr>],
        forward_index = [Sub (Var ''v'') (IntImm 2)],
        forward_thread = Sub (Var ''v'') (IntImm 2),
        thread_replicate = make_itervar ''unused'' (IntImm 1)\<rparr>"
    by (simp add: Fragment_unused small_engine_def)
  with Repeat_nonzero_min_thread_extent [OF small_engine_ok, of True] small_engine_ok
  show ?thesis by blast
qed

subsection \<open>The register tile of makeGemmFragmentC\<close>

lemma atom_bindings:
  "frag_bindings [make_itervar ''i'' (IntImm 8), make_itervar ''j'' (IntImm 8)]
     (make_itervar ''rep'' (IntImm 1))
   = [(''i'', \<lparr>min_r = IntImm 0, extent = IntImm 8\<rparr>),
      (''j'', \<lparr>min_r = IntImm 0, extent = IntImm 8\<rparr>),
      (''rep'', \<lparr>min_r = IntImm 0, extent = IntImm 1\<rparr>)]"
  by (simp add: frag_bindings_def make_itervar_def Range_begin_end_def is_zero_def)

lemma atom_thread_bounds:
  "bounds_of [(''i'', \<lparr>min_r = IntImm 0, extent = IntImm 8\<rparr>),
              (''j'', \<lparr>min_r = IntImm 0, extent = IntImm 8\<rparr>),
              (''rep'', \<lparr>min_r = IntImm 0, extent = IntImm 1\<rparr>)]
     (Add (FloorDiv (Var ''j'') (IntImm 2)) (Mul (IntImm 4) (Var ''i''))) 0 31"
proof (rule bounds_by_enumeration)
  show "const_bindings [(''i'', \<lparr>min_r = IntImm 0, extent = IntImm 8\<rparr>),
              (''j'', \<lparr>min_r = IntImm 0, extent = IntImm 8\<rparr>),
              (''rep'', \<lparr>min_r = IntImm 0, extent = IntImm 1\<rparr>)]"
    by (simp add: const_bindings_def const_range_def)
  show "fv (Add (FloorDiv (Var ''j'') (IntImm 2)) (Mul (IntImm 4) (Var ''i'')))
          \<subseteq> fst ` set [(''i'', \<lparr>min_r = IntImm 0, extent = IntImm 8\<rparr>),
              (''j'', \<lparr>min_r = IntImm 0, extent = IntImm 8\<rparr>),
              (''rep'', \<lparr>min_r = IntImm 0, extent = IntImm 1\<rparr>)]"
    by simp
  show "enum_int_set [(''i'', \<lparr>min_r = IntImm 0, extent = IntImm 8\<rparr>),
              (''j'', \<lparr>min_r = IntImm 0, extent = IntImm 8\<rparr>),
              (''rep'', \<lparr>min_r = IntImm 0, extent = IntImm 1\<rparr>)]
          (Add (FloorDiv (Var ''j'') (IntImm 2)) (Mul (IntImm 4) (Var ''i'')))
        = (IntImm 0, IntImm 31)"
    by code_simp
qed

lemma atom_index_bounds:
  "bounds_of [(''i'', \<lparr>min_r = IntImm 0, extent = IntImm 8\<rparr>),
              (''j'', \<lparr>min_r = IntImm 0, extent = IntImm 8\<rparr>),
              (''rep'', \<lparr>min_r = IntImm 0, extent = IntImm 1\<rparr>)]
     (FloorMod (Var ''j'') (IntImm 2)) 0 1"
proof (rule bounds_by_enumeration)
  show "const_bindings [(''i'', \<lparr>min_r = IntImm 0, extent = IntImm 8\<rparr>),
              (''j'', \<lparr>min_r = IntImm 0, extent = IntImm 8\<rparr>),
              (''rep'', \<lparr>min_r = IntImm 0, extent = IntImm 1\<rparr>)]"
    by (simp add: const_bindings_def const_range_def)
  show "fv (FloorMod (Var ''j'') (IntImm 2))
          \<subseteq> fst ` set [(''i'', \<lparr>min_r = IntImm 0, extent = IntImm 8\<rparr>),
              (''j'', \<lparr>min_r = IntImm 0, extent = IntImm 8\<rparr>),
              (''rep'', \<lparr>min_r = IntImm 0, extent = IntImm 1\<rparr>)]"
    by simp
  show "enum_int_set [(''i'', \<lparr>min_r = IntImm 0, extent = IntImm 8\<rparr>),
              (''j'', \<lparr>min_r = IntImm 0, extent = IntImm 8\<rparr>),
              (''rep'', \<lparr>min_r = IntImm 0, extent = IntImm 1\<rparr>)]
          (FloorMod (Var ''j'') (IntImm 2))
        = (IntImm 0, IntImm 1)"
    by code_simp
qed

lemma makeGemmFragment8x8_facts:
  assumes ok: "engine_ok an"
  shows "\<exists>n. makeGemmFragment8x8 an = Inr n \<and>
             forward_var n = [make_itervar ''i'' (IntImm 8), make_itervar ''j'' (IntImm 8)] \<and>
             wf_fragment n \<and> zero_based n \<and> InputDim n = 2 \<and> OutputDim n = 1 \<and>
             ThreadExtent an n = Inr (IntImm 32) \<and>
             FragmentNode_OutputShape an n = Inr [IntImm 2]"
proof -
  from ok have ss: "sound_simplify an" and tb: "tight_bounds an" by (simp_all add: engine_ok_def)
  define fvar where "fvar = [make_itervar ''i'' (IntImm 8), make_itervar ''j'' (IntImm 8)]"
  define rep where "rep = make_itervar ''rep'' (IntImm 1)"
  define th where "th = Add (FloorDiv (Var ''j'') (IntImm 2)) (Mul (IntImm 4) (Var ''i''))"
  define ix where "ix = FloorMod (Var ''j'') (IntImm 2)"
  define n where "n = \<lparr>forward_var = fvar,
                        forward_index = map (Simplify an (frag_bindings fvar rep)) [ix],
                        forward_thread = Simplify an (frag_bindings fvar rep) th,
                        thread_replicate = rep\<rparr>"
  have res: "makeGemmFragment8x8 an = Inr n"
    by (simp add: makeGemmFragment8x8_def Let_def Fragment_given n_def fvar_def rep_def th_def
        ix_def frag_bindings_def make_itervar_def Range_begin_end_def is_zero_def)
  have wf: "wf_fragment n"
    unfolding n_def
    by (rule built_wf [OF ss])
      (simp_all add: fvar_def rep_def th_def ix_def make_itervar_def Range_begin_end_def
        is_zero_def const_range_def)
  have zb: "zero_based n"
    by (simp add: zero_based_def n_def fvar_def make_itervar_def Range_begin_end_def is_zero_def)
  have bn: "FragmentNode_UpdateAnalyzer n = frag_bindings fvar rep"
    by (simp add: FragmentNode_UpdateAnalyzer_frag_bindings n_def)
  have te: "ThreadExtent an n = Inr (IntImm 32)"
    unfolding ThreadExtent_literal [OF tb wf] bn
    using atom_thread_bounds
    by (simp add: n_def simplify_bounds [OF ss] fvar_def rep_def atom_bindings th_def)
  have ixn: "forward_index n = [Simplify an (frag_bindings fvar rep) ix]"
    by (simp add: n_def)
  have os: "FragmentNode_OutputShape an n = Inr [IntImm 2]"
    unfolding OutputShape_single_literal [OF tb wf ixn] bn
    using atom_index_bounds
    by (simp add: simplify_bounds [OF ss] fvar_def rep_def atom_bindings ix_def)
  have "forward_var n = [make_itervar ''i'' (IntImm 8), make_itervar ''j'' (IntImm 8)]"
    "InputDim n = 2" "OutputDim n = 1"
    by (simp_all add: n_def fvar_def InputDim_def OutputDim_def)
  with res wf zb te os show ?thesis by blast
qed

lemma makeGemmFragmentC_64_facts:
  assumes ok: "engine_ok an"
  shows "\<exists>n. makeGemmFragmentC an lower_dim_first_default 64 64 32 32 16 = Inr n \<and>
             InputShape n = [IntImm 64, IntImm 64] \<and>
             ThreadExtent an n = Inr (IntImm 128) \<and>
             FragmentNode_OutputShape an n = Inr [IntImm 32]"
proof -
  from makeGemmFragment8x8_facts [OF ok] obtain atom where
    atom: "makeGemmFragment8x8 an = Inr atom"
    "forward_var atom = [make_itervar ''i'' (IntImm 8), make_itervar ''j'' (IntImm 8)]"
    "wf_fragment atom" "zero_based atom" "InputDim atom = 2" "OutputDim atom = 1"
    "ThreadExtent an atom = Inr (IntImm 32)" "FragmentNode_OutputShape an atom = Inr [IntImm 2]"
    by blast
  have l1: "length [2, 1 :: int] = InputDim atom" using atom(5) by simp
  have p1: "list_all (\<lambda>c. 0 < c) [2, 1 :: int]" by simp
  from Repeat_on_data_result [OF ok atom(3,4) l1 p1 atom(6,7,8), of lower_dim_first_default]
  obtain base where
    base: "Repeat an atom (map IntImm [2, 1]) False lower_dim_first_default = Inr base"
    "forward_var base = scaled (forward_var atom) [2, 1]"
    "wf_fragment base" "zero_based base" "InputDim base = InputDim atom" "OutputDim base = 1"
    "ThreadExtent an base = Inr (IntImm 32)"
    "FragmentNode_OutputShape an base = Inr [IntImm (2 * prod_list [2, 1])]"
    by blast
  have l2: "length [2, 2 :: int] = InputDim base" using base(5) atom(5) by simp
  have p2: "list_all (\<lambda>c. 0 < c) [2, 2 :: int]" by simp
  from Repeat_on_thread_result [OF ok base(3,4) l2 p2 base(7), of False] base(6,8)
  obtain warp where
    warp: "Repeat an base (map IntImm [2, 2]) True False = Inr warp"
    "forward_var warp = scaled (forward_var base) [2, 2]"
    "wf_fragment warp" "zero_based warp" "InputDim warp = InputDim base" "OutputDim warp = 1"
    "ThreadExtent an warp = Inr (IntImm (32 * prod_list [2, 2]))"
    "FragmentNode_OutputShape an warp = Inr [IntImm (2 * prod_list [2, 1])]"
    by auto
  have l3: "length [2, 4 :: int] = InputDim warp" using warp(5) base(5) atom(5) by simp
  have p3: "list_all (\<lambda>c. 0 < c) [2, 4 :: int]" by simp
  from Repeat_on_data_result [OF ok warp(3,4) l3 p3 warp(6,7,8), of False]
  obtain block where
    block: "Repeat an warp (map IntImm [2, 4]) False False = Inr block"
    "forward_var block = scaled (forward_var warp) [2, 4]"
    "ThreadExtent an block = Inr (IntImm (32 * prod_list [2, 2]))"
    "FragmentNode_OutputShape an block = Inr [IntImm (2 * prod_list [2, 1] * prod_list [2, 4])]"
    by blast
  have q: "(64::int) sdiv 32 = 2" "(32::int) sdiv 16 = 2" "(32::int) sdiv 8 = 4"
    "(64::int) smod 32 = 0" "(32::int) smod 16 = 0"
    by (simp_all add: signed_divide_int_def signed_modulo_int_def)
  have res: "makeGemmFragmentC an lower_dim_first_default 64 64 32 32 16 = Inr block"
    using atom(1) base(1) warp(1) block(1)
    by (simp add: makeGemmFragmentC_def q)
  have shape: "InputShape block = [IntImm 64, IntImm 64]"
    by (simp add: InputShape_def block(2) warp(2) base(2) atom(2) scaled_def extent_of_def
        make_itervar_def Range_begin_end_def is_zero_def)
  from res shape block(3,4) show ?thesis by simp
qed

text \<open>
  C3, as the code has it.  The Fragment of \<open>makeGemmFragmentC(64, 64, 32, 32, 16)\<close> is over
  the 64 by 64 tile, has the thread extent 128 (the 32 lanes of the atom repeated over the
  2 by 2 warps) and the output shape 32 (the two registers of an atom, repeated over the
  2 by 1 atoms of the base tile and the 2 by 4 base tiles of a warp tile): 128 threads
  times 32 registers are the 64 times 64 elements of the tile.
\<close>

theorem makeGemmFragmentC_64_extents:
  assumes "engine_ok an"
  shows "\<exists>n. makeGemmFragmentC an lower_dim_first_default 64 64 32 32 16 = Inr n \<and>
             InputShape n = [IntImm 64, IntImm 64] \<and>
             ThreadExtent an n = Inr (IntImm 128) \<and>
             FragmentNode_OutputShape an n = Inr [IntImm 32] \<and>
             (128::int) * 32 = 64 * 64"
  using makeGemmFragmentC_64_facts [OF assms, of lower_dim_first_default] by simp

theorem makeGemmFragmentC_64_extents_witness:
  "engine_ok small_engine \<and>
   (\<exists>n. makeGemmFragmentC small_engine True 64 64 32 32 16 = Inr n \<and>
        InputShape n = [IntImm 64, IntImm 64] \<and>
        ThreadExtent small_engine n = Inr (IntImm 128) \<and>
        FragmentNode_OutputShape small_engine n = Inr [IntImm 32] \<and>
        (128::int) * 32 = 64 * 64)"
  using makeGemmFragmentC_64_extents [OF small_engine_ok, of True] small_engine_ok by blast

text \<open>
  The thread extent is not 32, whichever default \<open>Repeat\<close> has for \<open>lower_dim_first\<close>.
\<close>

theorem makeGemmFragmentC_64_thread_extent_not_32:
  "(case makeGemmFragmentC small_engine True 64 64 32 32 16 of
      Inl err \<Rightarrow> False
    | Inr n \<Rightarrow> ThreadExtent small_engine n = Inr (IntImm 128) \<and>
               ThreadExtent small_engine n \<noteq> Inr (IntImm 32)) \<and>
   (case makeGemmFragmentC small_engine False 64 64 32 32 16 of
      Inl err \<Rightarrow> False
    | Inr n \<Rightarrow> ThreadExtent small_engine n = Inr (IntImm 128) \<and>
               ThreadExtent small_engine n \<noteq> Inr (IntImm 32))"
  using makeGemmFragmentC_64_facts [OF small_engine_ok, of True]
    makeGemmFragmentC_64_facts [OF small_engine_ok, of False]
  by auto

subsection \<open>Changing the replication variable\<close>







subsection \<open>Replicate and DeReplicate on well-formed Fragments\<close>






subsection \<open>The default Fragment of Partition\<close>







subsection \<open>The inverse of a Layout\<close>

lemma digit_char_inj:
  assumes "a < 10" "b < 10" "digit_char a = digit_char b"
  shows "a = b"
proof -
  have d: "distinct ''0123456789''" by simp
  have l: "length ''0123456789'' = 10" by simp
  from assms show ?thesis
    unfolding digit_char_def using nth_eq_iff_index_eq [OF d, of a b] l by simp
qed

lemma to_string_nonempty: "to_string n \<noteq> []"
  by (subst to_string.simps) simp

lemma to_string_inj: "to_string n = to_string m \<Longrightarrow> n = m"
proof (induction n arbitrary: m rule: less_induct)
  case (less n)
  show ?case
  proof (cases "n < 10")
    case True
    then have n: "to_string n = [digit_char n]" by (subst to_string.simps) simp
    show ?thesis
    proof (cases "m < 10")
      case mt: True
      then have "to_string m = [digit_char m]" by (subst to_string.simps) simp
      with n less.prems True mt show ?thesis by (auto intro: digit_char_inj)
    next
      case False
      then have "to_string m = to_string (m div 10) @ [digit_char (m mod 10)]"
        by (subst to_string.simps) simp
      with n less.prems to_string_nonempty [of "m div 10"] show ?thesis
        by (cases "to_string (m div 10)") auto
    qed
  next
    case False
    then have n: "to_string n = to_string (n div 10) @ [digit_char (n mod 10)]"
      by (subst to_string.simps) simp
    show ?thesis
    proof (cases "m < 10")
      case True
      then have "to_string m = [digit_char m]" by (subst to_string.simps) simp
      with n less.prems to_string_nonempty [of "n div 10"] show ?thesis
        by (cases "to_string (n div 10)") auto
    next
      case mf: False
      then have "to_string m = to_string (m div 10) @ [digit_char (m mod 10)]"
        by (subst to_string.simps) simp
      with n less.prems have eq: "to_string (n div 10) = to_string (m div 10)"
        "digit_char (n mod 10) = digit_char (m mod 10)"
        by simp_all
      from False have "n div 10 < n" by simp
      from less.IH [OF this eq(1)] have q: "n div 10 = m div 10" .
      from digit_char_inj [OF _ _ eq(2)] have r: "n mod 10 = m mod 10" by simp
      from q r show ?thesis by (metis div_mult_mod_eq)
    qed
  qed
qed

lemma Layout_fields:
  "forward_var (Layout an fvar findex) = fvar"
  "forward_index (Layout an fvar findex) =
     map (Simplify an (map (\<lambda>iv. (var iv, dom_iv iv)) fvar)) findex"
  by (simp_all add: Layout_def Let_def UpdateAnalyzer_def)

text \<open>
  C8.  When the forward map of a Layout is detected (the detector reports no error),
  \<open>Inverse\<close> fails exactly when \<open>OutputShape\<close> fails, and otherwise returns a Layout with
  one new input variable for each output of the original: the variables are made by
  \<open>make_itervar\<close> under the names \<open>v0\<close>, \<open>v1\<close>, ..., which differ from one another, each
  over the range from zero to the component of \<open>OutputShape()\<close> at its position.  The
  Layout has one output for each input variable of the original, and the output for an
  input variable that the inverse map does not determine is the literal zero.
\<close>

theorem Inverse_variables_and_zero:
  assumes "sound_simplify an"
    and "fst (DetectIterMap an (forward_index n)
               (fold (\<lambda>iv m. AList.update (var iv) (dom_iv iv) m) (forward_var n) [])) = []"
  shows "(case OutputShape an n of
            Inl err \<Rightarrow> Inverse an n = Inl err
          | Inr shape \<Rightarrow>
              (\<exists>n'. Inverse an n = Inr n' \<and>
                 forward_var n' =
                   map (\<lambda>i. make_itervar (''v'' @ to_string i) (shape ! i)) [0..<OutputDim n] \<and>
                 distinct (map var (forward_var n')) \<and>
                 InputShape n' = shape \<and>
                 list_all (\<lambda>iv. min_r (dom_iv iv) = IntImm 0) (forward_var n') \<and>
                 OutputDim n' = InputDim n \<and>
                 (\<forall>i<InputDim n.
                    InverseAffineIterMap an
                      (snd (DetectIterMap an (forward_index n)
                         (fold (\<lambda>iv m. AList.update (var iv) (dom_iv iv) m) (forward_var n) [])))
                      (map (\<lambda>iv. Var (var iv)) (forward_var n'))
                      (var (forward_var n ! i)) = None \<longrightarrow>
                    forward_index n' ! i = IntImm 0)))"
proof (cases "OutputShape an n")
  case (Inl err)
  with assms(2) show ?thesis by (simp add: Inverse_def Let_def)
next
  case (Inr shape)
  define vars where "vars = map (\<lambda>i. make_itervar (''v'' @ to_string i) (shape ! i)) [0..<OutputDim n]"
  define inv where "inv = InverseAffineIterMap an
                      (snd (DetectIterMap an (forward_index n)
                         (fold (\<lambda>iv m. AList.update (var iv) (dom_iv iv) m) (forward_var n) [])))
                      (map (\<lambda>iv. Var (var iv)) vars)"
  define bwd where "bwd = map (\<lambda>iv. case inv (var iv) of Some e \<Rightarrow> e | None \<Rightarrow> IntImm 0)
                              (forward_var n)"
  define n' where "n' = Layout an vars bwd"
  have res: "Inverse an n = Inr n'"
    using assms(2) Inr by (simp add: Inverse_def Let_def n'_def bwd_def inv_def vars_def)
  have fv': "forward_var n' = vars" by (simp add: n'_def Layout_fields)
  from OutputShape_loop_Inr [of an "UpdateAnalyzer n" "forward_index n" shape] Inr
  have len: "length shape = OutputDim n" by (simp add: OutputShape_def OutputDim_def)
  have names: "map var vars = map (\<lambda>i. ''v'' @ to_string i) [0..<OutputDim n]"
    by (simp add: vars_def make_itervar_def comp_def)
  have "inj_on (\<lambda>i. ''v'' @ to_string i) (set [0..<OutputDim n])"
    by (auto simp: inj_on_def dest: to_string_inj)
  then have dist: "distinct (map var vars)"
    unfolding names by (simp add: distinct_map)
  have "map (\<lambda>iv. extent (dom_iv iv)) vars = map (\<lambda>i. shape ! i) [0..<OutputDim n]"
    by (simp add: vars_def make_itervar_def Range_begin_end_def is_zero_def comp_def)
  also have "\<dots> = shape" unfolding len [symmetric] by (rule map_nth)
  finally have ishape: "InputShape n' = shape" by (simp add: InputShape_def fv')
  have zero: "list_all (\<lambda>iv. min_r (dom_iv iv) = IntImm 0) vars"
    by (simp add: vars_def list_all_iff make_itervar_def Range_begin_end_def)
  have od: "OutputDim n' = InputDim n"
    by (simp add: OutputDim_def InputDim_def n'_def Layout_fields bwd_def)
  have z: "forward_index n' ! i = IntImm 0"
    if "i < InputDim n" "inv (var (forward_var n ! i)) = None" for i
  proof -
    from assms(1) have "\<And>b c. Simplify an b (IntImm c) = IntImm c"
      unfolding sound_simplify_def by blast
    with that show ?thesis
      by (simp add: n'_def Layout_fields bwd_def InputDim_def)
  qed
  have "Inverse an n = Inr n' \<and>
        forward_var n' =
          map (\<lambda>i. make_itervar (''v'' @ to_string i) (shape ! i)) [0..<OutputDim n] \<and>
        distinct (map var (forward_var n')) \<and>
        InputShape n' = shape \<and>
        list_all (\<lambda>iv. min_r (dom_iv iv) = IntImm 0) (forward_var n') \<and>
        OutputDim n' = InputDim n \<and>
        (\<forall>i<InputDim n.
           InverseAffineIterMap an
             (snd (DetectIterMap an (forward_index n)
                (fold (\<lambda>iv m. AList.update (var iv) (dom_iv iv) m) (forward_var n) [])))
             (map (\<lambda>iv. Var (var iv)) (forward_var n'))
             (var (forward_var n ! i)) = None \<longrightarrow>
           forward_index n' ! i = IntImm 0)"
    using res dist ishape zero od z unfolding fv' inv_def [symmetric]
    by (simp add: vars_def)
  then have "\<exists>n'. Inverse an n = Inr n' \<and>
        forward_var n' =
          map (\<lambda>i. make_itervar (''v'' @ to_string i) (shape ! i)) [0..<OutputDim n] \<and>
        distinct (map var (forward_var n')) \<and>
        InputShape n' = shape \<and>
        list_all (\<lambda>iv. min_r (dom_iv iv) = IntImm 0) (forward_var n') \<and>
        OutputDim n' = InputDim n \<and>
        (\<forall>i<InputDim n.
           InverseAffineIterMap an
             (snd (DetectIterMap an (forward_index n)
                (fold (\<lambda>iv m. AList.update (var iv) (dom_iv iv) m) (forward_var n) [])))
             (map (\<lambda>iv. Var (var iv)) (forward_var n'))
             (var (forward_var n ! i)) = None \<longrightarrow>
           forward_index n' ! i = IntImm 0)"
    by (rule exI)
  with Inr show ?thesis by simp
qed


theorem Inverse_variables_and_zero_witness:
  "sound_simplify small_engine \<and>
   fst (DetectIterMap small_engine
          (forward_index (Layout small_engine
             [make_itervar ''i'' (IntImm 1), make_itervar ''j'' (IntImm 8)] [Var ''j'']))
          (fold (\<lambda>iv m. AList.update (var iv) (dom_iv iv) m)
             (forward_var (Layout small_engine
                [make_itervar ''i'' (IntImm 1), make_itervar ''j'' (IntImm 8)] [Var ''j''])) [])) = [] \<and>
   (\<exists>n'. Inverse small_engine
            (Layout small_engine
               [make_itervar ''i'' (IntImm 1), make_itervar ''j'' (IntImm 8)] [Var ''j'']) = Inr n' \<and>
         forward_var n' = [make_itervar ''v0'' (IntImm 8)] \<and>
         forward_index n' ! 0 = IntImm 0)"
proof -
  let ?n = "Layout small_engine [make_itervar ''i'' (IntImm 1), make_itervar ''j'' (IntImm 8)] [Var ''j'']"
  have ss: "sound_simplify small_engine" using small_engine_ok by (simp add: engine_ok_def)
  have n: "forward_var ?n = [make_itervar ''i'' (IntImm 1), make_itervar ''j'' (IntImm 8)]"
    "forward_index ?n = [Var ''j'']"
    by (simp_all add: Layout_fields small_engine_def)
  have det: "DetectIterMap small_engine (forward_index ?n)
               (fold (\<lambda>iv m. AList.update (var iv) (dom_iv iv) m) (forward_var ?n) [])
             = ([], [Var ''j''])"
    unfolding n
    by (simp add: small_engine_def perm_DetectIterMap_def make_itervar_def Range_begin_end_def
        is_zero_def)
  have os: "OutputShape small_engine ?n = Inr [IntImm 8]" by code_simp
  have dims: "OutputDim ?n = 1" "InputDim ?n = 2"
    by (simp_all add: OutputDim_def InputDim_def n)
  have ts: "to_string 0 = ''0''" by (subst to_string.simps) (simp add: digit_char_def)
  have d0: "fst (DetectIterMap small_engine (forward_index ?n)
               (fold (\<lambda>iv m. AList.update (var iv) (dom_iv iv) m) (forward_var ?n) [])) = []"
    using det by simp
  from Inverse_variables_and_zero [OF ss d0] os
  obtain n' where n': "Inverse small_engine ?n = Inr n'"
    "forward_var n' = map (\<lambda>i. make_itervar (''v'' @ to_string i) ([IntImm 8] ! i)) [0..<OutputDim ?n]"
    "\<forall>i<InputDim ?n.
        InverseAffineIterMap small_engine
          (snd (DetectIterMap small_engine (forward_index ?n)
             (fold (\<lambda>iv m. AList.update (var iv) (dom_iv iv) m) (forward_var ?n) [])))
          (map (\<lambda>iv. Var (var iv)) (forward_var n'))
          (var (forward_var ?n ! i)) = None \<longrightarrow>
        forward_index n' ! i = IntImm 0"
    by auto
  from n'(2) have v: "forward_var n' = [make_itervar ''v0'' (IntImm 8)]"
    by (simp add: dims ts)
  have sel: "InverseAffineIterMap small_engine = perm_InverseAffineIterMap"
    by (simp add: small_engine_def)
  have "InverseAffineIterMap small_engine
          (snd (DetectIterMap small_engine (forward_index ?n)
             (fold (\<lambda>iv m. AList.update (var iv) (dom_iv iv) m) (forward_var ?n) [])))
          (map (\<lambda>iv. Var (var iv)) (forward_var n'))
          (var (forward_var ?n ! 0)) = None"
    using det unfolding v n sel
    by (simp add: perm_InverseAffineIterMap_def make_itervar_def)
  with n'(3) dims have "forward_index n' ! 0 = IntImm 0" by simp
  with n'(1) v ss d0 show ?thesis by blast
qed

end
